theory Spec2Isabelle
  imports Main "HOL-Library.Word" "HOL-Library.AList"
begin

section \<open>The autograd engine of torch/csrc/autograd/engine.cpp\<close>

text \<open>
  A shallow embedding of the reverse-mode execution engine.  One worker thread is
  modelled: its thread-locals, the objects it shares through pointers (ready queues
  and graph tasks, kept in explicit stores), and the calls it makes.  Other threads
  do not run; a call that would wait for one of them (\<open>ReadyQueue::pop\<close> on an empty
  queue, \<open>Future::wait\<close> on a pending future) ends the modelled thread in the outcome
  \<open>Blocked\<close>.  Tensor arithmetic, the \<open>Node\<close> class, the input buffer and the device
  runtime live outside engine.cpp; the functions the engine calls from them are
  fields of the record \<open>env\<close>, and every theorem holds for every such record.
\<close>

subsection \<open>Graph: nodes and edges\<close>

type_synonym node = nat
  \<comment> \<open>\<open>Node*\<close>: the address of a node object; \<open>nullptr\<close> is \<open>None\<close> of \<open>node option\<close>\<close>

record Edge =
  edge_function :: "node option"
  input_nr :: nat

definition is_valid :: "Edge \<Rightarrow> bool" where
  "is_valid e = (edge_function e \<noteq> None)"

type_synonym graph = "(node \<times> Edge list) list"
  \<comment> \<open>the node objects in memory: each listed node with its \<open>next_edges()\<close>\<close>

definition next_edges_of :: "graph \<Rightarrow> node \<Rightarrow> Edge list" where
  "next_edges_of g n = (case map_of g n of None \<Rightarrow> [] | Some es \<Rightarrow> es)"

subsection \<open>Tensors, as far as the engine looks at them\<close>

datatype DeviceType = kCPU | kCUDA | kXLA

record Device =
  device_type :: DeviceType
  device_index :: int

datatype ScalarType = kByte | kChar | kShort | kInt | kLong | kHalf | kFloat | kDouble | kBool | kBFloat16

record TensorOptions =
  dtype :: ScalarType
  opt_device :: Device
  opt_sparse :: bool

record Tensor =
  sizes :: "int list"
  options :: TensorOptions
  storage :: nat
  \<comment> \<open>\<open>storage\<close> names the tensor's data; the engine never reads the numbers\<close>

type_synonym Variable = "Tensor option"
  \<comment> \<open>\<open>None\<close> is the undefined tensor: \<open>defined()\<close> is false\<close>

type_synonym variable_list = "Variable list"

definition scalar_type :: "Tensor \<Rightarrow> ScalarType" where
  "scalar_type t = dtype (options t)"

definition device :: "Tensor \<Rightarrow> Device" where
  "device t = opt_device (options t)"

record InputMetadata =
  md_options :: TensorOptions
  md_shape :: "int list"
  md_device :: Device

subsection \<open>Exceptions\<close>

datatype error =
    InvalidNumberOfGradients nat nat
  | InvalidGradientShape nat
  | NotFloatingType
  | InvalidGradientType nat
  | InvalidGradientDevice nat
  | FunctionReturnedAn node error
  | RuntimeError string
  | DependencyNotFound node
  | NanOutput node nat
  | InternalAssert string
  | OutOfRange
  | NullDereference
  | NodeError string

text \<open>
  The first five are the \<open>AT_ERROR\<close>s and the \<open>TORCH_CHECK\<close> of \<open>validate_outputs\<close>, with
  the index the message prints; \<open>FunctionReturnedAn\<close> is the prefix
  ``Function f returned an'' that \<open>call_function\<close>'s \<open>format_error\<close> puts in front.
  \<open>RuntimeError\<close> is a \<open>std::runtime_error\<close> with a literal message,
  \<open>DependencyNotFound\<close> and \<open>NanOutput\<close> the two whose message names a function.
  \<open>OutOfRange\<close> is the \<open>std::out_of_range\<close> of \<open>at()\<close>; \<open>NullDereference\<close> stands for a
  read through a null pointer or past a vector's end, where C++ leaves the behaviour
  undefined.  \<open>NodeError\<close> is whatever a node's \<open>apply\<close> or a hook throws.
\<close>

subsection \<open>Graph tasks, node tasks and the state of the modelled thread\<close>

type_synonym int32 = "32 word"
  \<comment> \<open>a C++ \<open>int\<close>; read with \<open>sint\<close>\<close>

type_synonym gt_ref = nat
  \<comment> \<open>the identity of a \<open>GraphTask\<close> object\<close>

type_synonym queue_ref = nat
  \<comment> \<open>the identity of a \<open>ReadyQueue\<close> object\<close>

type_synonym stream = nat

record Capture =
  input_idx :: nat
  output_idx :: nat

record ExecInfo =
  needed :: bool
  captures :: "Capture list option"
  \<comment> \<open>\<open>unique_ptr<vector<Capture>>\<close>: \<open>None\<close> is the null pointer\<close>

definition default_ExecInfo :: ExecInfo where
  "default_ExecInfo = \<lparr>needed = False, captures = None\<rparr>"

text \<open>
  Modelled from the spec: \<open>ExecInfo::should_execute\<close> is declared in engine.h, which is
  not among the sources; the spec gives it as \<open>needed || captures.non_empty\<close>.
\<close>

definition should_execute :: "ExecInfo \<Rightarrow> bool" where
  "should_execute info =
     (needed info \<or> (case captures info of None \<Rightarrow> False | Some cs \<Rightarrow> cs \<noteq> []))"

datatype future = Pending | Completed variable_list | Errored error

record GraphTask =
  outstanding_tasks :: "64 word"
  has_error :: bool
  exit_on_error :: bool
  keep_graph :: bool
  grad_mode :: bool
  reentrant_depth :: int32
  owner :: int
  dependencies :: "(node \<times> int) list"
  not_ready :: "(node \<times> variable_list) list"
  exec_info :: "(node option \<times> ExecInfo) list"
  captured_vars :: variable_list
  leaf_streams :: "stream list"
  future_result :: future
  cpu_ready_queue :: "queue_ref option"

text \<open>
  Isabelle keeps names that end in an underscore for itself, so the members are
  written without it: \<open>dependencies\<close> is \<open>dependencies_\<close>, \<open>fn\<close> is \<open>fn_\<close>.
  The three \<open>unordered_map\<close>s are association lists read with \<open>map_of\<close> and written with
  \<open>AList.update\<close> and \<open>AList.delete\<close>; \<open>exec_info\<close> is keyed by the pointer itself, so that
  a lookup of an invalid edge's null pointer is a lookup like any other.
\<close>

record NodeTask =
  base :: "gt_ref option"
  fn :: "node option"
  inputs :: variable_list
  isShutdownTask :: bool
  \<comment> \<open>\<open>base\<close> is the \<open>weak_ptr<GraphTask>\<close>: \<open>None\<close> when empty, else the object it refers
     to, which is alive as long as the store of graph tasks holds it\<close>

datatype event =
    Applied node
  | Pushed "gt_ref option" "node option"
  | Entered_thread_main "gt_ref option" bool

datatype 'a outcome = Returned 'a | Raised error | Blocked | Undefined

text \<open>
  How a call ends: it returns, it throws, it waits for another thread (\<open>Blocked\<close>), or
  it runs into undefined behaviour of C++ (\<open>Undefined\<close>), which no handler catches.
\<close>

record state =
  \<comment> \<open>the thread-locals of lines 42--76\<close>
  worker_device :: int
  checkpoint_valid :: bool
  current_depth :: int32
  total_depth :: int32
  local_ready_queue :: "queue_ref option"
  \<comment> \<open>the objects behind the shared pointers\<close>
  ready_queues :: "(queue_ref \<times> NodeTask list) list"
  graph_tasks :: "(gt_ref \<times> GraphTask) list"
  \<comment> \<open>members of Engine\<close>
  max_recursion_depth :: int32
  device_ready_queues :: "queue_ref list"
  device_threads_started :: bool
  graphtasks_queue :: "gt_ref list"
  num_workers :: nat
  final_callbacks :: "nat list"
  \<comment> \<open>a log of the calls the claims speak about, oldest first; no code reads it\<close>
  trace :: "event list"

text \<open>
  Modelled from the spec: \<open>NO_DEVICE\<close> and \<open>CPU_DEVICE\<close> are declared in engine.h, which is
  not among the sources; the spec gives \<open>NO_DEVICE = -2\<close> and \<open>CPU_DEVICE = -1\<close>.
\<close>

definition NO_DEVICE :: int where
  "NO_DEVICE = - 2"

definition CPU_DEVICE :: int where
  "CPU_DEVICE = - 1"

subsection \<open>What the engine calls outside engine.cpp\<close>

record env =
  \<comment> \<open>class Node\<close>
  nodes :: graph
  num_inputs :: "node \<Rightarrow> nat"
  input_metadata :: "node \<Rightarrow> nat \<Rightarrow> InputMetadata"
  apply_fn :: "node \<Rightarrow> variable_list \<Rightarrow> error + variable_list"
  pre_hooks :: "node \<Rightarrow> (variable_list \<Rightarrow> variable_list) list"
  post_hooks :: "node \<Rightarrow> (variable_list \<Rightarrow> variable_list \<Rightarrow> variable_list) list"
  node_stream :: "node \<Rightarrow> stream option"
  \<comment> \<open>ATen\<close>
  is_expandable_to :: "int list \<Rightarrow> int list \<Rightarrow> bool"
  sum_to :: "Tensor \<Rightarrow> int list \<Rightarrow> Tensor"
  isFloatingType :: "ScalarType \<Rightarrow> bool"
  to_dtype :: "Tensor \<Rightarrow> ScalarType \<Rightarrow> Tensor"
  type_equal :: "TensorOptions \<Rightarrow> TensorOptions \<Rightarrow> bool"
  has_nan :: "Tensor \<Rightarrow> bool"
  \<comment> \<open>class InputBuffer\<close>
  buffer_add :: "variable_list \<Rightarrow> nat \<Rightarrow> Variable \<Rightarrow> variable_list"
  buffer_device :: "variable_list \<Rightarrow> Device"
  \<comment> \<open>AnomalyMode::is_enabled()\<close>
  anomaly_enabled :: bool
  \<comment> \<open>std::priority_queue with CompareNodeTaskTime: the position of the top of a heap\<close>
  heap_top :: "(NodeTask \<Rightarrow> int32) \<Rightarrow> NodeTask list \<Rightarrow> nat"
  \<comment> \<open>the device runtime: the largest deviceCount() of the registered device types\<close>
  device_count :: nat
  \<comment> \<open>a callback of final_callbacks: what it throws, if it throws\<close>
  run_callback :: "nat \<Rightarrow> error option"
  \<comment> \<open>GraphTask::can_checkpoint(), declared in engine.h\<close>
  can_checkpoint :: "GraphTask \<Rightarrow> bool"
  \<comment> \<open>the default of the constructor argument exit_on_error of GraphTask (engine.h)\<close>
  exit_on_error_default :: bool

text \<open>
  Hooks are pure functions on the variables here, and a callback does not register
  further callbacks; \<open>heap_top\<close> receives \<open>getReentrantDepth\<close>, the only thing the
  comparator reads from the state.
\<close>


subsection \<open>validate_outputs\<close>

definition is_compatible_type :: "env \<Rightarrow> TensorOptions \<Rightarrow> TensorOptions \<Rightarrow> bool" where
  "is_compatible_type lib expected actual =
     (type_equal lib expected actual \<or>
      (opt_sparse actual \<and> device_type (opt_device expected) = device_type (opt_device actual)))"

text \<open>
  The body of the loop for a valid edge and a defined gradient (lines 447--473).
  \<open>output\<close> is a reference to \<open>grads[i]\<close>, so \<open>output.device()\<close> on line 467 reads the
  tensor after the two assignments to \<open>grads[i]\<close>.
\<close>

definition validate_grad ::
  "env \<Rightarrow> (error \<Rightarrow> error) \<Rightarrow> InputMetadata \<Rightarrow> nat \<Rightarrow> Tensor \<Rightarrow> error + Tensor" where
  "validate_grad lib format_error metadata i g0 =
     (if sizes g0 \<noteq> md_shape metadata \<and> \<not> is_expandable_to lib (md_shape metadata) (sizes g0)
      then Inl (format_error (InvalidGradientShape i))
      else
        let g1 = (if sizes g0 \<noteq> md_shape metadata then sum_to lib g0 (md_shape metadata) else g0) in
        if \<not> isFloatingType lib (scalar_type g1) then Inl NotFloatingType
        else
          let g2 = (if dtype (md_options metadata) \<noteq> scalar_type g1
                    then to_dtype lib g1 (dtype (md_options metadata)) else g1) in
          if \<not> is_compatible_type lib (md_options metadata) (options g2)
          then Inl (format_error (InvalidGradientType i))
          else if device g2 \<noteq> md_device metadata
          then Inl (format_error (InvalidGradientDevice i))
          else Inr g2)"

text \<open>One iteration of the loop (lines 435--473): the new value of \<open>grads[i]\<close>, or the exception.\<close>

definition validate_index ::
  "env \<Rightarrow> (error \<Rightarrow> error) \<Rightarrow> Edge \<Rightarrow> nat \<Rightarrow> Variable \<Rightarrow> error + Variable" where
  "validate_index lib format_error edge i output =
     (case edge_function edge of
        None \<Rightarrow> Inr output
      | Some f \<Rightarrow>
          (case output of
             None \<Rightarrow> Inr None
           | Some g \<Rightarrow>
               (case validate_grad lib format_error (input_metadata lib f (input_nr edge)) i g of
                  Inl e \<Rightarrow> Inl e
                | Inr g' \<Rightarrow> Inr (Some g'))))"

function validate_loop ::
  "env \<Rightarrow> (error \<Rightarrow> error) \<Rightarrow> Edge list \<Rightarrow> variable_list \<Rightarrow> nat \<Rightarrow> error + variable_list" where
  "validate_loop lib format_error edges grads i =
     (if i < length grads then
        (case validate_index lib format_error (edges ! i) i (grads ! i) of
           Inl e \<Rightarrow> Inl e
         | Inr v \<Rightarrow> validate_loop lib format_error edges (grads[i := v]) (Suc i))
      else Inr grads)"
  by pat_completeness auto
termination
  by (relation "measure (\<lambda>(lib, fe, edges, grads, i). length grads - i)") auto

declare validate_loop.simps [simp del]

definition validate_outputs ::
  "env \<Rightarrow> Edge list \<Rightarrow> variable_list \<Rightarrow> (error \<Rightarrow> error) \<Rightarrow> error + variable_list" where
  "validate_outputs lib edges grads format_error =
     (if length grads \<noteq> length edges
      then Inl (format_error (InvalidNumberOfGradients (length edges) (length grads)))
      else validate_loop lib format_error edges grads 0)"

subsection \<open>The stores: dereferencing shared and weak pointers\<close>

definition heap_of :: "state \<Rightarrow> queue_ref \<Rightarrow> NodeTask list" where
  "heap_of s q = (case map_of (ready_queues s) q of None \<Rightarrow> [] | Some h \<Rightarrow> h)"

definition set_heap :: "queue_ref \<Rightarrow> NodeTask list \<Rightarrow> state \<Rightarrow> state" where
  "set_heap q h s = s\<lparr>ready_queues := AList.update q h (ready_queues s)\<rparr>"

definition lock :: "state \<Rightarrow> gt_ref option \<Rightarrow> (gt_ref \<times> GraphTask) option" where
  "lock s w =
     (case w of
        None \<Rightarrow> None
      | Some r \<Rightarrow> (case map_of (graph_tasks s) r of None \<Rightarrow> None | Some gt \<Rightarrow> Some (r, gt)))"

definition put_graph_task :: "gt_ref \<Rightarrow> GraphTask \<Rightarrow> state \<Rightarrow> state" where
  "put_graph_task r gt s = s\<lparr>graph_tasks := AList.update r gt (graph_tasks s)\<rparr>"

definition fresh_ref :: "(nat \<times> 'a) list \<Rightarrow> nat" where
  "fresh_ref store = Suc (fold max (map fst store) 0)"

definition log_event :: "event \<Rightarrow> state \<Rightarrow> state" where
  "log_event ev s = s\<lparr>trace := trace s @ [ev]\<rparr>"

subsection \<open>NodeTask and ReadyQueue (lines 137--195)\<close>

definition INT_MAX :: int32 where
  "INT_MAX = 2147483647"

definition getReentrantDepth :: "state \<Rightarrow> NodeTask \<Rightarrow> int32" where
  "getReentrantDepth s task =
     (case lock s (base task) of
        Some (r, graph_task) \<Rightarrow> reentrant_depth graph_task
      | None \<Rightarrow> INT_MAX)"

definition graph_task_completed :: "GraphTask \<Rightarrow> bool" where
  "graph_task_completed graph_task =
     (outstanding_tasks graph_task = 0 \<or> (exit_on_error graph_task \<and> has_error graph_task))"

definition ReadyQueue_push :: "queue_ref \<Rightarrow> NodeTask \<Rightarrow> bool \<Rightarrow> state \<Rightarrow> error + state" where
  "ReadyQueue_push q item incrementOutstandingTasks s =
     (if incrementOutstandingTasks then
        (case lock s (base item) of
           None \<Rightarrow> Inl (InternalAssert ''GraphTask is no longer valid!'')
         | Some (r, graph_task) \<Rightarrow>
             (let s1 = put_graph_task r
                         (graph_task\<lparr>outstanding_tasks := outstanding_tasks graph_task + 1\<rparr>) s
              in Inr (log_event (Pushed (base item) (fn item))
                        (set_heap q (heap_of s1 q @ [item]) s1))))
      else Inr (log_event (Pushed (base item) (fn item)) (set_heap q (heap_of s q @ [item]) s)))"

definition shutdown_task :: NodeTask where
  "shutdown_task = \<lparr>base = None, fn = None, inputs = [], isShutdownTask = True\<rparr>"

definition pushShutdownTask :: "queue_ref \<Rightarrow> state \<Rightarrow> state" where
  "pushShutdownTask q s = set_heap q (heap_of s q @ [shutdown_task]) s"

definition ReadyQueue_size :: "state \<Rightarrow> queue_ref \<Rightarrow> nat" where
  "ReadyQueue_size s q = length (heap_of s q)"

definition ReadyQueue_empty :: "state \<Rightarrow> queue_ref \<Rightarrow> bool" where
  "ReadyQueue_empty s q = (heap_of s q = [])"

text \<open>
  \<open>pop\<close> on a heap that is not empty: the top, and the heap without it.  The caller
  handles the empty heap, where the thread waits.
\<close>

definition ReadyQueue_pop :: "env \<Rightarrow> queue_ref \<Rightarrow> state \<Rightarrow> NodeTask \<times> state" where
  "ReadyQueue_pop lib q s =
     (let h = heap_of s q;
          k = min (heap_top lib (getReentrantDepth s) h) (length h - 1)
      in (h ! k, set_heap q (take k h @ drop (Suc k) h) s))"

text \<open>
  Modelled from the spec: \<open>CompareNodeTaskTime\<close>, the order of the heap, is declared in
  engine.h, which is not among the sources.  The spec: ``a max-heap keyed by
  \<open>(is_shutdown desc, reentrant_depth desc)\<close>'', ``shutdown tasks have the highest
  priority''.  \<open>CompareNodeTaskTime s t1 t2\<close> says that \<open>t1\<close> comes after \<open>t2\<close>.
\<close>

definition CompareNodeTaskTime :: "state \<Rightarrow> NodeTask \<Rightarrow> NodeTask \<Rightarrow> bool" where
  "CompareNodeTaskTime s t1 t2 =
     (if isShutdownTask t1 \<noteq> isShutdownTask t2 then isShutdownTask t2
      else sint (getReentrantDepth s t1) < sint (getReentrantDepth s t2))"

subsection \<open>Engine and its destructor (lines 198--214)\<close>

definition Engine :: state where
  "Engine =
     \<lparr>worker_device = NO_DEVICE, checkpoint_valid = True, current_depth = 0, total_depth = 0,
      local_ready_queue = None, ready_queues = [], graph_tasks = [],
      max_recursion_depth = 100, device_ready_queues = [], device_threads_started = False,
      graphtasks_queue = [], num_workers = 0, final_callbacks = [], trace = []\<rparr>"

definition Engine_destructor :: "state \<Rightarrow> state" where
  "Engine_destructor s =
     (let noBackward = fold (\<lambda>queue noBackward. noBackward \<and> ReadyQueue_empty s queue)
                         (device_ready_queues s) True
      in if noBackward then fold pushShutdownTask (device_ready_queues s) s else s)"

subsection \<open>Errors and completion (lines 380--402, 832--880)\<close>

definition completed :: "future \<Rightarrow> bool" where
  "completed fut = (fut \<noteq> Pending)"

definition hasError :: "future \<Rightarrow> bool" where
  "hasError fut = (case fut of Errored e \<Rightarrow> True | _ \<Rightarrow> False)"

definition future_wait :: "future \<Rightarrow> variable_list outcome" where
  "future_wait fut =
     (case fut of Pending \<Rightarrow> Blocked | Completed v \<Rightarrow> Returned v | Errored e \<Rightarrow> Raised e)"

text \<open>
  \<open>set_exception\<close>: the graph task afterwards, and the assertion that failed, if one
  did (\<open>has_error_\<close> is already set then).  The anomaly stack is only printed.
\<close>

definition set_exception :: "GraphTask \<Rightarrow> error \<Rightarrow> GraphTask \<times> error option" where
  "set_exception graph_task e =
     (if \<not> has_error graph_task then
        (let gt1 = graph_task\<lparr>has_error := True\<rparr> in
         if \<not> completed (future_result gt1) then (gt1\<lparr>future_result := Errored e\<rparr>, None)
         else if hasError (future_result gt1) then (gt1, None)
         else (gt1, Some (InternalAssert ''future_result_->hasError()'')))
      else (graph_task, None))"

fun run_final_callbacks :: "env \<Rightarrow> nat list \<Rightarrow> error option" where
  "run_final_callbacks lib [] = None"
| "run_final_callbacks lib (cb # cbs) =
     (case run_callback lib cb of Some e \<Rightarrow> Some e | None \<Rightarrow> run_final_callbacks lib cbs)"

text \<open>
  \<open>graph_task_exec_post_processing\<close>.  The wait of the default streams for the leaf
  streams is a call into the device runtime and changes nothing the engine holds.
\<close>

definition graph_task_exec_post_processing ::
  "env \<Rightarrow> state \<Rightarrow> GraphTask \<Rightarrow> error + variable_list" where
  "graph_task_exec_post_processing lib s graph_task =
     (if not_ready graph_task \<noteq> []
      then Inl (RuntimeError ''could not compute gradients for some functions'')
      else
        (case run_final_callbacks lib (final_callbacks s) of
           Some e \<Rightarrow> Inl e
         | None \<Rightarrow> Inr (captured_vars graph_task)))"

definition mark_graph_task_completed :: "env \<Rightarrow> state \<Rightarrow> GraphTask \<Rightarrow> GraphTask" where
  "mark_graph_task_completed lib s graph_task =
     (if completed (future_result graph_task) then graph_task
      else
        (case graph_task_exec_post_processing lib s graph_task of
           Inr val \<Rightarrow> graph_task\<lparr>future_result := Completed val\<rparr>
         | Inl e \<Rightarrow> graph_task\<lparr>future_result := Errored e\<rparr>))"

subsection \<open>call_function (lines 404--416, 477--532)\<close>

definition call_pre_hooks :: "env \<Rightarrow> node \<Rightarrow> variable_list \<Rightarrow> variable_list" where
  "call_pre_hooks lib func ins = fold (\<lambda>hook vs. hook vs) (pre_hooks lib func) ins"

definition call_post_hooks ::
  "env \<Rightarrow> node \<Rightarrow> variable_list \<Rightarrow> variable_list \<Rightarrow> variable_list" where
  "call_post_hooks lib func outputs ins =
     fold (\<lambda>hook outs. hook outs ins) (post_hooks lib func) outputs"

text \<open>
  \<open>checkpoint_valid\<close> is restored by an assignment after \<open>validate_outputs\<close>, not by a
  guard: when the function or the validation throws it keeps the value of line 482.
\<close>

definition call_function ::
  "env \<Rightarrow> GraphTask \<Rightarrow> node \<Rightarrow> variable_list \<Rightarrow> state \<Rightarrow> variable_list outcome \<times> state" where
  "call_function lib graph_task func inputBuffer s =
     (let prev_checkpoint_valid_state = checkpoint_valid s;
          s1 = s\<lparr>checkpoint_valid := can_checkpoint lib graph_task \<and> prev_checkpoint_valid_state\<rparr>;
          ins = call_pre_hooks lib func inputBuffer;
          has_post_hooks = (post_hooks lib func \<noteq> []);
          s2 = log_event (Applied func) s1
      in case apply_fn lib func ins of
           Inl e \<Rightarrow> (Raised e, s2)
         | Inr outputs \<Rightarrow>
             (case validate_outputs lib (next_edges_of (nodes lib) func) outputs
                     (FunctionReturnedAn func) of
                Inl e \<Rightarrow> (Raised e, s2)
              | Inr outputs' \<Rightarrow>
                  (Returned (if has_post_hooks then call_post_hooks lib func outputs' ins
                             else outputs'),
                   s2\<lparr>checkpoint_valid := prev_checkpoint_valid_state\<rparr>)))"

subsection \<open>evaluate_function (lines 534--657)\<close>

definition should_execute_at :: "(node option \<times> ExecInfo) list \<Rightarrow> node option \<Rightarrow> bool" where
  "should_execute_at ei p = (case map_of ei p of None \<Rightarrow> False | Some info \<Rightarrow> should_execute info)"

text \<open>
  Lines 545--548.  Both subscripts are unchecked vector accesses; out of range the
  result is \<open>None\<close>, for undefined behaviour.
\<close>

fun capture_inputs :: "Capture list \<Rightarrow> variable_list \<Rightarrow> variable_list \<Rightarrow> variable_list option" where
  "capture_inputs [] ins cv = Some cv"
| "capture_inputs (capture # rest) ins cv =
     (if input_idx capture < length ins \<and> output_idx capture < length cv
      then capture_inputs rest ins (cv[output_idx capture := ins ! input_idx capture])
      else None)"

definition vector_at :: "'a list \<Rightarrow> int \<Rightarrow> error + 'a" where
  "vector_at xs i = (if 0 \<le> i \<and> nat i < length xs then Inr (xs ! nat i) else Inl OutOfRange)"

definition ready_queue :: "state \<Rightarrow> GraphTask \<Rightarrow> Device \<Rightarrow> error + queue_ref" where
  "ready_queue s graph_task dev =
     (if device_type dev = kCPU then
        (case cpu_ready_queue graph_task of
           None \<Rightarrow> Inl (InternalAssert ''graph_task->cpu_ready_queue_ != nullptr'')
         | Some q \<Rightarrow> Inr q)
      else vector_at (device_ready_queues s) (device_index dev))"

definition ready_queue_by_index :: "state \<Rightarrow> GraphTask \<Rightarrow> int \<Rightarrow> error + queue_ref" where
  "ready_queue_by_index s graph_task dev_index =
     (if dev_index = CPU_DEVICE then
        (case cpu_ready_queue graph_task of
           None \<Rightarrow> Inl (InternalAssert ''graph_task->cpu_ready_queue_ != nullptr'')
         | Some q \<Rightarrow> Inr q)
      else vector_at (device_ready_queues s) dev_index)"

text \<open>Lines 633--635 and 650--652: the queue of the buffer's device, and the push.\<close>

definition enqueue_ready ::
  "env \<Rightarrow> gt_ref \<Rightarrow> node \<Rightarrow> variable_list \<Rightarrow> state \<Rightarrow> unit outcome \<times> state" where
  "enqueue_ready lib r next_fn input_buffer s =
     (case map_of (graph_tasks s) r of
        None \<Rightarrow> (Undefined, s)
      | Some graph_task \<Rightarrow>
          (case ready_queue s graph_task (buffer_device lib input_buffer) of
             Inl e \<Rightarrow> (Raised e, s)
           | Inr q \<Rightarrow>
               (case ReadyQueue_push q
                       \<lparr>base = Some r, fn = Some next_fn, inputs = input_buffer,
                        isShutdownTask = False\<rparr> True s of
                  Inl e \<Rightarrow> (Raised e, s)
                | Inr s' \<Rightarrow> (Returned (), s'))))"

definition erase_not_ready :: "gt_ref \<Rightarrow> node \<Rightarrow> state \<Rightarrow> state" where
  "erase_not_ready r next_fn s =
     (case map_of (graph_tasks s) r of
        None \<Rightarrow> s
      | Some graph_task \<Rightarrow>
          put_graph_task r (graph_task\<lparr>not_ready := AList.delete next_fn (not_ready graph_task)\<rparr>) s)"

text \<open>
  One iteration of the loop of lines 593--656, for output \<open>i\<close>.  \<open>fn.next_edge(i)\<close> is an
  unchecked access.
\<close>

definition route_output ::
  "env \<Rightarrow> gt_ref \<Rightarrow> node \<Rightarrow> nat \<Rightarrow> Variable \<Rightarrow> state \<Rightarrow> unit outcome \<times> state" where
  "route_output lib r func i output s =
     (if length (next_edges_of (nodes lib) func) \<le> i then (Undefined, s)
      else
        let next = next_edges_of (nodes lib) func ! i in
        case edge_function next of
          None \<Rightarrow> (Returned (), s)
        | Some next_fn \<Rightarrow>
            (case map_of (graph_tasks s) r of
               None \<Rightarrow> (Undefined, s)
             | Some graph_task \<Rightarrow>
                 (case map_of (dependencies graph_task) next_fn of
                    None \<Rightarrow> (Raised (DependencyNotFound next_fn), s)
                  | Some count \<Rightarrow>
                      let is_ready = (count - 1 = 0);
                          gt1 = graph_task\<lparr>dependencies :=
                                  (if is_ready then AList.delete next_fn (dependencies graph_task)
                                   else AList.update next_fn (count - 1) (dependencies graph_task))\<rparr>
                      in
                      (case map_of (not_ready gt1) next_fn of
                         None \<Rightarrow>
                           if exec_info gt1 \<noteq> [] \<and> \<not> should_execute_at (exec_info gt1) (Some next_fn)
                           then (Returned (), put_graph_task r gt1 s)
                           else
                             let input_buffer =
                                   buffer_add lib (replicate (num_inputs lib next_fn) None)
                                     (input_nr next) output
                             in
                             if is_ready
                             then enqueue_ready lib r next_fn input_buffer (put_graph_task r gt1 s)
                             else (Returned (),
                                   put_graph_task r
                                     (gt1\<lparr>not_ready := AList.update next_fn input_buffer (not_ready gt1)\<rparr>) s)
                       | Some buf \<Rightarrow>
                           let input_buffer = buffer_add lib buf (input_nr next) output;
                               gt2 = gt1\<lparr>not_ready := AList.update next_fn input_buffer (not_ready gt1)\<rparr>
                           in
                           if is_ready then
                             (case enqueue_ready lib r next_fn input_buffer (put_graph_task r gt2 s) of
                                (Returned u, s') \<Rightarrow> (Returned (), erase_not_ready r next_fn s')
                              | other \<Rightarrow> other)
                           else (Returned (), put_graph_task r gt2 s)))))"

fun route_loop ::
  "env \<Rightarrow> gt_ref \<Rightarrow> node \<Rightarrow> variable_list \<Rightarrow> nat list \<Rightarrow> state \<Rightarrow> unit outcome \<times> state" where
  "route_loop lib r func outputs [] s = (Returned (), s)"
| "route_loop lib r func outputs (i # rest) s =
     (case route_output lib r func i (outputs ! i) s of
        (Returned u, s') \<Rightarrow> route_loop lib r func outputs rest s'
      | other \<Rightarrow> other)"

text \<open>Lines 578--589: the first output with a NaN, when anomaly mode is on.\<close>

definition find_nan :: "env \<Rightarrow> variable_list \<Rightarrow> nat option" where
  "find_nan lib outputs =
     (case filter (\<lambda>i. case outputs ! i of None \<Rightarrow> False | Some t \<Rightarrow> has_nan lib t)
             [0..<length outputs] of
        [] \<Rightarrow> None
      | i # rest \<Rightarrow> Some i)"

text \<open>Lines 556--656: the function is called and its outputs are routed.\<close>

definition run_function ::
  "env \<Rightarrow> gt_ref \<Rightarrow> node \<Rightarrow> variable_list \<Rightarrow> state \<Rightarrow> unit outcome \<times> state" where
  "run_function lib r func ins s =
     (case map_of (graph_tasks s) r of
        None \<Rightarrow> (Undefined, s)
      | Some graph_task \<Rightarrow>
          (case call_function lib graph_task func ins s of
             (Returned outputs, s1) \<Rightarrow>
               if length outputs = 0 then
                 (case node_stream lib func of
                    None \<Rightarrow> (Returned (), s1)
                  | Some opt_parent_stream \<Rightarrow>
                      (Returned (),
                       put_graph_task r
                         (graph_task\<lparr>leaf_streams :=
                            List.insert opt_parent_stream (leaf_streams graph_task)\<rparr>) s1))
               else
                 (case (if anomaly_enabled lib then find_nan lib outputs else None) of
                    Some i \<Rightarrow> (Raised (NanOutput func i), s1)
                  | None \<Rightarrow> route_loop lib r func outputs [0..<length outputs] s1)
           | (Raised e, s1) \<Rightarrow> (Raised e, s1)
           | (Blocked, s1) \<Rightarrow> (Blocked, s1)
           | (Undefined, s1) \<Rightarrow> (Undefined, s1)))"

definition evaluate_function ::
  "env \<Rightarrow> gt_ref \<Rightarrow> node \<Rightarrow> variable_list \<Rightarrow> state \<Rightarrow> unit outcome \<times> state" where
  "evaluate_function lib r func ins s =
     (case map_of (graph_tasks s) r of
        None \<Rightarrow> (Undefined, s)
      | Some graph_task \<Rightarrow>
          if exec_info graph_task \<noteq> [] then
            (case map_of (exec_info graph_task) (Some func) of
               None \<Rightarrow> (Raised OutOfRange, s)
             | Some fn_info \<Rightarrow>
                 (case (case captures fn_info of
                          None \<Rightarrow> Some (captured_vars graph_task)
                        | Some capture_vec \<Rightarrow>
                            capture_inputs capture_vec ins (captured_vars graph_task)) of
                    None \<Rightarrow> (Undefined, s)
                  | Some cv \<Rightarrow>
                      let s1 = put_graph_task r (graph_task\<lparr>captured_vars := cv\<rparr>) s in
                      if \<not> needed fn_info then (Returned (), s1)
                      else run_function lib r func ins s1))
          else run_function lib r func ins s)"

subsection \<open>compute_dependencies (lines 660--678)\<close>

text \<open>
  The vector \<open>queue\<close> is a list with its back first.  \<open>cd_edges\<close> is the loop over the
  edges of one function, \<open>cd_loop\<close> the loop over the queue.
\<close>

fun cd_edges ::
  "Edge list \<Rightarrow> node list \<times> node set \<times> (node \<times> int) list
     \<Rightarrow> node list \<times> node set \<times> (node \<times> int) list" where
  "cd_edges [] st = st"
| "cd_edges (edge # rest) (queue, seen, deps) =
     (case edge_function edge of
        None \<Rightarrow> cd_edges rest (queue, seen, deps)
      | Some next_ptr \<Rightarrow>
          (let deps' = AList.update next_ptr
                         ((case map_of deps next_ptr of None \<Rightarrow> 0 | Some c \<Rightarrow> c) + 1) deps;
               was_inserted = (next_ptr \<notin> seen)
           in cd_edges rest
                (if was_inserted then next_ptr # queue else queue, insert next_ptr seen, deps')))"

definition targets :: "graph \<Rightarrow> node set" where
  "targets g = {m. \<exists>n e. e \<in> set (next_edges_of g n) \<and> edge_function e = Some m}"

lemma next_edges_of_in_graph:
  "\<exists>es. (n, es) \<in> set g \<and> e \<in> set es" if "e \<in> set (next_edges_of g n)"
proof (cases "map_of g n")
  case None
  then show ?thesis using that by (simp add: next_edges_of_def)
next
  case (Some es)
  then have "(n, es) \<in> set g" by (rule map_of_SomeD)
  with Some that show ?thesis by (auto simp: next_edges_of_def)
qed

lemma finite_targets: "finite (targets g)"
proof -
  have "targets g \<subseteq> (\<Union>p \<in> set g. (\<lambda>e. the (edge_function e)) ` set (snd p))"
  proof
    fix m assume "m \<in> targets g"
    then obtain n e where e: "e \<in> set (next_edges_of g n)" and m: "edge_function e = Some m"
      by (auto simp: targets_def)
    from next_edges_of_in_graph[OF e] obtain es where "(n, es) \<in> set g" "e \<in> set es" by blast
    with m show "m \<in> (\<Union>p \<in> set g. (\<lambda>e. the (edge_function e)) ` set (snd p))"
      by force
  qed
  moreover have "finite (\<Union>p \<in> set g. (\<lambda>e. the (edge_function e)) ` set (snd p))"
    by auto
  ultimately show ?thesis by (rule finite_subset)
qed

lemma cd_edges_seen:
  "cd_edges es (queue, seen, deps) = (queue', seen', deps') \<Longrightarrow>
   seen \<subseteq> seen' \<and> seen' \<subseteq> seen \<union> {m. \<exists>e \<in> set es. edge_function e = Some m} \<and>
   (seen' = seen \<longrightarrow> queue' = queue)"
proof (induction es arbitrary: queue seen deps)
  case Nil
  then show ?case by simp
next
  case (Cons e es)
  show ?case
  proof (cases "edge_function e")
    case None
    with Cons.prems have "cd_edges es (queue, seen, deps) = (queue', seen', deps')" by simp
    from Cons.IH[OF this] None show ?thesis by auto
  next
    case (Some m)
    let ?deps = "AList.update m ((case map_of deps m of None \<Rightarrow> 0 | Some c \<Rightarrow> c) + 1) deps"
    from Cons.prems Some
    have "cd_edges es (if m \<notin> seen then m # queue else queue, insert m seen, ?deps)
            = (queue', seen', deps')"
      by (simp add: Let_def)
    from Cons.IH[OF this] Some show ?thesis by (auto split: if_splits)
  qed
qed

function cd_loop :: "graph \<Rightarrow> node list \<times> node set \<times> (node \<times> int) list \<Rightarrow> (node \<times> int) list" where
  "cd_loop g ([], seen, deps) = deps"
| "cd_loop g (f # queue, seen, deps) = cd_loop g (cd_edges (next_edges_of g f) (queue, seen, deps))"
  by pat_completeness auto
termination
proof (relation "inv_image (finite_psubset <*lex*> less_than)
                   (\<lambda>(g, queue, seen, deps). (targets g - seen, length queue))")
  show "wf (inv_image (finite_psubset <*lex*> less_than)
                   (\<lambda>(g, queue, seen, deps). (targets g - seen, length queue)))"
    by (intro wf_inv_image wf_lex_prod wf_finite_psubset wf_less_than)
next
  fix g f queue seen deps
  obtain queue' seen' deps' where r: "cd_edges (next_edges_of g f) (queue, seen, deps) = (queue', seen', deps')"
    by (cases "cd_edges (next_edges_of g f) (queue, seen, deps)") auto
  from cd_edges_seen[OF r]
  have sub: "seen \<subseteq> seen'"
    and up0: "seen' \<subseteq> seen \<union> {m. \<exists>e \<in> set (next_edges_of g f). edge_function e = Some m}"
    and same: "seen' = seen \<Longrightarrow> queue' = queue"
    by blast+
  have "{m. \<exists>e \<in> set (next_edges_of g f). edge_function e = Some m} \<subseteq> targets g"
    unfolding targets_def by blast
  with up0 have up: "seen' \<subseteq> seen \<union> targets g" by blast
  show "((g, cd_edges (next_edges_of g f) (queue, seen, deps)), (g, f # queue, seen, deps))
          \<in> inv_image (finite_psubset <*lex*> less_than)
              (\<lambda>(g, queue, seen, deps). (targets g - seen, length queue))"
  proof (cases "seen' = seen")
    case True
    with same r show ?thesis by simp
  next
    case False
    with sub up have "targets g - seen' \<subset> targets g - seen" by blast
    with r show ?thesis by (simp add: finite_psubset_def finite_targets)
  qed
qed


definition compute_dependencies :: "graph \<Rightarrow> node \<Rightarrow> GraphTask \<Rightarrow> GraphTask" where
  "compute_dependencies g root task =
     task\<lparr>dependencies := cd_loop g ([root], {}, dependencies task)\<rparr>"

subsection \<open>GraphTask::init_to_execute (lines 996--1058)\<close>

text \<open>
  \<open>Frame::get_next_fn\<close>: the next valid edge's function from position \<open>k\<close> on, with the
  new \<open>next_next_fn_\<close>; \<open>None\<close> is the null pointer it returns at the end.
\<close>

function get_next_fn :: "Edge list \<Rightarrow> nat \<Rightarrow> node option \<times> nat" where
  "get_next_fn next k =
     (if k < length next then
        (case edge_function (next ! k) of
           Some f \<Rightarrow> (Some f, Suc k)
         | None \<Rightarrow> get_next_fn next (Suc k))
      else (None, k))"
  by pat_completeness auto
termination
  by (relation "measure (\<lambda>(next, k). length next - k)") auto

declare get_next_fn.simps [simp del]

lemma get_next_fn_Some:
  "get_next_fn es k = (Some m, k') \<Longrightarrow>
   k < k' \<and> k' \<le> length es \<and> edge_function (es ! (k' - 1)) = Some m \<and>
   (\<forall>j. k \<le> j \<and> j < k' - 1 \<longrightarrow> edge_function (es ! j) = None)"
proof (induction es k rule: get_next_fn.induct)
  case (1 es k)
  show ?case
  proof (cases "k < length es")
    case False
    with "1.prems" show ?thesis by (simp add: get_next_fn.simps)
  next
    case True
    show ?thesis
    proof (cases "edge_function (es ! k)")
      case (Some f)
      with True "1.prems" show ?thesis by (auto simp: get_next_fn.simps)
    next
      case None
      with True "1.prems" have "get_next_fn es (Suc k) = (Some m, k')"
        by (simp add: get_next_fn.simps)
      from "1.IH"[OF True None this] None show ?thesis
        by (metis Suc_leI Suc_lessD order_le_less)
    qed
  qed
qed

lemma get_next_fn_None:
  "get_next_fn es k = (None, k') \<Longrightarrow>
   (\<forall>j. k \<le> j \<and> j < length es \<longrightarrow> edge_function (es ! j) = None)"
proof (induction es k rule: get_next_fn.induct)
  case (1 es k)
  show ?case
  proof (cases "k < length es")
    case False
    then show ?thesis by auto
  next
    case True
    show ?thesis
    proof (cases "edge_function (es ! k)")
      case (Some f)
      with True "1.prems" show ?thesis by (simp add: get_next_fn.simps)
    next
      case None
      with True "1.prems" have "get_next_fn es (Suc k) = (None, k')"
        by (simp add: get_next_fn.simps)
      from "1.IH"[OF True None this] None show ?thesis
        by (metis Suc_leI Suc_lessD order_le_less)
    qed
  qed
qed

definition set_needed ::
  "(node option \<times> ExecInfo) list \<Rightarrow> node option \<Rightarrow> bool \<Rightarrow> (node option \<times> ExecInfo) list" where
  "set_needed ei p b =
     AList.update p ((case map_of ei p of None \<Rightarrow> default_ExecInfo | Some info \<Rightarrow> info)\<lparr>needed := b\<rparr>) ei"

definition any_should_execute :: "(node option \<times> ExecInfo) list \<Rightarrow> Edge list \<Rightarrow> bool" where
  "any_should_execute ei next_edges = list_ex (\<lambda>edge. should_execute_at ei (edge_function edge)) next_edges"

text \<open>The measure for the loop below: the edges the frames of the stack have left.\<close>

definition frames_left :: "graph \<Rightarrow> (node \<times> nat) list \<Rightarrow> nat" where
  "frames_left g stack = sum_list (map (\<lambda>(f, k). Suc (length (next_edges_of g f) - k)) stack)"

text \<open>
  The loop of lines 1036--1056; the stack is a list of frames \<open>(fn_, next_next_fn_)\<close>
  with its back first.
\<close>

function needed_loop ::
  "graph \<Rightarrow> (node option \<times> ExecInfo) list \<times> (node \<times> nat) list \<times> node set
     \<Rightarrow> (node option \<times> ExecInfo) list \<times> node set" where
  "needed_loop g (ei, [], seen) = (ei, seen)"
| "needed_loop g (ei, (f, k) # stack, seen) =
     (case get_next_fn (next_edges_of g f) k of
        (Some next_fn, k') \<Rightarrow>
          if next_fn \<notin> seen
          then needed_loop g (ei, (next_fn, 0) # (f, k') # stack, insert next_fn seen)
          else needed_loop g (ei, (f, k') # stack, seen)
      | (None, k') \<Rightarrow>
          needed_loop g
            (set_needed ei (Some f) (any_should_execute ei (next_edges_of g f)), stack, seen))"
  by pat_completeness auto
termination
proof (relation "inv_image (finite_psubset <*lex*> less_than)
                   (\<lambda>(g, ei, stack, seen). (targets g - seen, frames_left g stack))",
       goal_cases)
  case 1
  show ?case by (intro wf_inv_image wf_lex_prod wf_finite_psubset wf_less_than)
next
  case (2 g ei f k stack seen x y)
  show ?case by (simp add: frames_left_def)
next
  case (3 g ei f k stack seen x y x2)
  then have gn: "get_next_fn (next_edges_of g f) k = (Some x2, y)" by simp
  from get_next_fn_Some[OF gn] have "y - 1 < length (next_edges_of g f)"
    and "edge_function (next_edges_of g f ! (y - 1)) = Some x2" by auto
  then have "x2 \<in> targets g"
    unfolding targets_def using nth_mem by blast
  with \<open>x2 \<notin> seen\<close> have "targets g - insert x2 seen \<subset> targets g - seen" by blast
  then show ?case by (simp add: finite_psubset_def finite_targets)
next
  case (4 g ei f k stack seen x y x2)
  then have gn: "get_next_fn (next_edges_of g f) k = (Some x2, y)" by simp
  from get_next_fn_Some[OF gn] have "k < y" "y \<le> length (next_edges_of g f)" by auto
  then show ?case by (simp add: frames_left_def)
qed


text \<open>
  The loop of lines 1033--1057 over the edges of the root.  A root edge without a
  function puts a null \<open>fn_\<close> on the stack, which \<open>get_next_fn\<close> dereferences: \<open>None\<close>.
\<close>

fun needed_roots ::
  "graph \<Rightarrow> Edge list \<Rightarrow> (node option \<times> ExecInfo) list \<times> node set
     \<Rightarrow> ((node option \<times> ExecInfo) list \<times> node set) option" where
  "needed_roots g [] st = Some st"
| "needed_roots g (input # rest) (ei, seen) =
     (case edge_function input of
        None \<Rightarrow> None
      | Some f \<Rightarrow>
          if f \<in> seen then needed_roots g rest (ei, seen)
          else needed_roots g rest (needed_loop g (ei, [(f, 0)], seen)))"

text \<open>The loop of lines 999--1006.\<close>

fun add_captures ::
  "Edge list \<Rightarrow> nat \<Rightarrow> (node option \<times> ExecInfo) list \<Rightarrow> (node option \<times> ExecInfo) list" where
  "add_captures [] output_idx' ei = ei"
| "add_captures (output_edge # rest) output_idx' ei =
     (let output = edge_function output_edge;
          info = (case map_of ei output of None \<Rightarrow> default_ExecInfo | Some i \<Rightarrow> i);
          vec = (case captures info of None \<Rightarrow> [] | Some cs \<Rightarrow> cs)
      in add_captures rest (Suc output_idx')
           (AList.update output
              (info\<lparr>captures :=
                 Some (vec @ [\<lparr>input_idx = input_nr output_edge, output_idx = output_idx'\<rparr>])\<rparr>)
              ei))"

definition resize :: "variable_list \<Rightarrow> nat \<Rightarrow> variable_list" where
  "resize vs n = take n vs @ replicate (n - length vs) None"

definition init_to_execute :: "graph \<Rightarrow> node \<Rightarrow> Edge list \<Rightarrow> GraphTask \<Rightarrow> GraphTask option" where
  "init_to_execute g graph_root outputs task =
     (let ei0 = set_needed (exec_info task) (Some graph_root) True;
          ei1 = add_captures outputs 0 ei0;
          cv = resize (captured_vars task) (length outputs)
      in case needed_roots g (next_edges_of g graph_root) (ei1, {}) of
           None \<Rightarrow> None
         | Some (ei2, seen) \<Rightarrow> Some (task\<lparr>exec_info := ei2, captured_vars := cv\<rparr>))"

subsection \<open>thread_main (lines 282--355)\<close>

datatype loop_control = Continue | Break

definition thread_on_exception :: "gt_ref \<Rightarrow> error \<Rightarrow> state \<Rightarrow> unit outcome \<times> state" where
  "thread_on_exception r e s =
     (case map_of (graph_tasks s) r of
        None \<Rightarrow> (Undefined, s)
      | Some graph_task \<Rightarrow>
          (case set_exception graph_task e of
             (gt', None) \<Rightarrow> (Returned (), put_graph_task r gt' s)
           | (gt', Some a) \<Rightarrow> (Raised a, put_graph_task r gt' s)))"

text \<open>
  Lines 314--321.  \<open>AutoGradMode\<close> sets and restores a thread-local of the tensor
  library, which the engine does not read.
\<close>

definition run_task ::
  "env \<Rightarrow> gt_ref \<Rightarrow> GraphTask \<Rightarrow> NodeTask \<Rightarrow> state \<Rightarrow> unit outcome \<times> state" where
  "run_task lib r local_graph_task task s =
     (case fn task of
        None \<Rightarrow> (Returned (), s)
      | Some f \<Rightarrow>
          if has_error local_graph_task then (Returned (), s)
          else
            (case evaluate_function lib r f (inputs task) s of
               (Raised e, s1) \<Rightarrow> thread_on_exception r e s1
             | other \<Rightarrow> other))"

text \<open>Lines 323--353.\<close>

definition finish_task :: "env \<Rightarrow> gt_ref \<Rightarrow> state \<Rightarrow> loop_control outcome \<times> state" where
  "finish_task lib r s =
     (case map_of (graph_tasks s) r of
        None \<Rightarrow> (Undefined, s)
      | Some gt0 \<Rightarrow>
          let gt1 = gt0\<lparr>outstanding_tasks := outstanding_tasks gt0 - 1\<rparr>;
              gt_completed = graph_task_completed gt1;
              gt2 = (if gt_completed then mark_graph_task_completed lib s gt1 else gt1);
              s1 = put_graph_task r gt2 s
          in
          if gt_completed \<and> worker_device s = CPU_DEVICE then (Returned Break, s1)
          else
            let base_owner = owner gt2 in
            if base_owner \<noteq> worker_device s \<and> gt_completed then
              (case ready_queue_by_index s1 gt2 base_owner of
                 Inl e \<Rightarrow> (Raised e, s1)
               | Inr q \<Rightarrow>
                   (case ReadyQueue_push q
                           \<lparr>base = Some r, fn = None, inputs = [], isShutdownTask = False\<rparr>
                           True s1 of
                      Inl e \<Rightarrow> (Raised e, s1)
                    | Inr s2 \<Rightarrow> (Returned Continue, s2)))
            else (Returned Continue, s1))"

text \<open>
  One task, lines 296--353.  For an expired graph task line 309 logs
  \<open>task.fn_->name()\<close>, a read through \<open>fn_\<close> whether it is null or not.
\<close>

definition thread_main_task ::
  "env \<Rightarrow> bool \<Rightarrow> NodeTask \<Rightarrow> state \<Rightarrow> loop_control outcome \<times> state" where
  "thread_main_task lib reentrant_thread task s =
     (if isShutdownTask task then (Returned Break, s)
      else
        (case lock s (base task) of
           None \<Rightarrow>
             if reentrant_thread then (Raised (InternalAssert ''!reentrant_thread''), s)
             else (case fn task of None \<Rightarrow> (Undefined, s) | Some f \<Rightarrow> (Returned Continue, s))
         | Some (r, local_graph_task) \<Rightarrow>
             (case run_task lib r local_graph_task task s of
                (Returned u, s1) \<Rightarrow> finish_task lib r s1
              | (Raised e, s1) \<Rightarrow> (Raised e, s1)
              | (Blocked, s1) \<Rightarrow> (Blocked, s1)
              | (Undefined, s1) \<Rightarrow> (Undefined, s1))))"

text \<open>
  The condition of the loop, line 292; \<open>None\<close> when \<open>graph_task\<close> is dereferenced and
  is null or gone.
\<close>

definition loop_condition :: "state \<Rightarrow> gt_ref option \<Rightarrow> bool \<Rightarrow> bool option" where
  "loop_condition s graph_task reentrant_thread =
     (if \<not> reentrant_thread then Some True
      else (case lock s graph_task of
              None \<Rightarrow> None
            | Some (r, gt) \<Rightarrow> Some (outstanding_tasks gt \<noteq> 0)))"

text \<open>
  The loop may run for ever (a device thread leaves it only on a shutdown task), so
  it takes fuel: \<open>None\<close> says that the fuel ran out.  On an empty queue \<open>pop\<close> waits.
\<close>

fun thread_main_loop ::
  "nat \<Rightarrow> env \<Rightarrow> gt_ref option \<Rightarrow> bool \<Rightarrow> state \<Rightarrow> (unit outcome \<times> state) option" where
  "thread_main_loop 0 lib graph_task reentrant_thread s = None"
| "thread_main_loop (Suc fuel) lib graph_task reentrant_thread s =
     (case loop_condition s graph_task reentrant_thread of
        None \<Rightarrow> Some (Undefined, s)
      | Some False \<Rightarrow> Some (Returned (), s)
      | Some True \<Rightarrow>
          (case local_ready_queue s of
             None \<Rightarrow> Some (Undefined, s)
           | Some q \<Rightarrow>
               if heap_of s q = [] then Some (Blocked, s)
               else
                 (case ReadyQueue_pop lib q s of
                    (task, s1) \<Rightarrow>
                      (case thread_main_task lib reentrant_thread task s1 of
                         (Returned Continue, s2) \<Rightarrow>
                           thread_main_loop fuel lib graph_task reentrant_thread s2
                       | (Returned Break, s2) \<Rightarrow> Some (Returned (), s2)
                       | (Raised e, s2) \<Rightarrow> Some (Raised e, s2)
                       | (Blocked, s2) \<Rightarrow> Some (Blocked, s2)
                       | (Undefined, s2) \<Rightarrow> Some (Undefined, s2)))))"

text \<open>The call is logged first, then come the two assertions and the loop.\<close>

definition thread_main ::
  "nat \<Rightarrow> env \<Rightarrow> gt_ref option \<Rightarrow> bool \<Rightarrow> state \<Rightarrow> (unit outcome \<times> state) option" where
  "thread_main fuel lib graph_task reentrant_thread s0 =
     (let s = log_event (Entered_thread_main graph_task reentrant_thread) s0 in
      if reentrant_thread = (graph_task = None)
      then Some (Raised (InternalAssert ''reentrant_thread != (graph_task == nullptr)''), s)
      else if local_ready_queue s = None
      then Some (Raised (InternalAssert ''local_ready_queue != nullptr''), s)
      else thread_main_loop fuel lib graph_task reentrant_thread s)"

subsection \<open>execute (lines 696--830, 911--994)\<close>

definition init_local_ready_queue :: "queue_ref \<Rightarrow> state \<Rightarrow> error + state" where
  "init_local_ready_queue q s =
     (if local_ready_queue s \<noteq> None then Inl (InternalAssert ''!local_ready_queue'')
      else Inr (s\<lparr>local_ready_queue := Some q\<rparr>))"

definition make_ReadyQueue :: "state \<Rightarrow> queue_ref \<times> state" where
  "make_ReadyQueue s =
     (let q = fresh_ref (ready_queues s) in (q, s\<lparr>ready_queues := AList.update q [] (ready_queues s)\<rparr>))"

text \<open>\<open>set_device\<close>: the calls into the device guards change nothing the engine holds.\<close>

definition set_device :: "int \<Rightarrow> state \<Rightarrow> state" where
  "set_device dev s = s\<lparr>worker_device := dev\<rparr>"

fun new_queues :: "nat \<Rightarrow> state \<Rightarrow> queue_ref list \<times> state" where
  "new_queues 0 s = ([], s)"
| "new_queues (Suc n) s =
     (case make_ReadyQueue s of
        (q, s1) \<Rightarrow> (case new_queues n s1 of (qs, s2) \<Rightarrow> (q # qs, s2)))"

text \<open>
  \<open>start_device_threads\<close> under \<open>call_once\<close>: the queues are made; the threads it
  detaches are other threads.
\<close>

definition start_device_threads :: "env \<Rightarrow> state \<Rightarrow> state" where
  "start_device_threads lib s =
     (case new_queues (device_count lib) s of (qs, s1) \<Rightarrow> s1\<lparr>device_ready_queues := qs\<rparr>)"

definition call_once_start_device_threads :: "env \<Rightarrow> state \<Rightarrow> state" where
  "call_once_start_device_threads lib s =
     (if device_threads_started s then s
      else (start_device_threads lib s)\<lparr>device_threads_started := True\<rparr>)"

text \<open>
  \<open>add_thread_pool_task\<close>: the graph task joins the pool's queue; the thread it may
  create and the one it notifies are other threads.
\<close>

definition add_thread_pool_task :: "gt_ref \<Rightarrow> state \<Rightarrow> state" where
  "add_thread_pool_task r s = s\<lparr>graphtasks_queue := graphtasks_queue s @ [r]\<rparr>"

text \<open>
  Modelled from the spec: the constructor of \<open>GraphTask\<close> is declared in engine.h, which
  is not among the sources.  The spec's data model: a new task has no outstanding
  tasks, empty maps, no error and a pending future; \<open>exit_on_error_\<close>, which \<open>execute\<close>
  does not pass, is the argument \<open>exit\<close>.
\<close>

definition new_GraphTask :: "bool \<Rightarrow> bool \<Rightarrow> int32 \<Rightarrow> queue_ref option \<Rightarrow> bool \<Rightarrow> GraphTask" where
  "new_GraphTask keep grad depth q exit =
     \<lparr>outstanding_tasks = 0, has_error = False, exit_on_error = exit, keep_graph = keep,
      grad_mode = grad, reentrant_depth = depth, owner = NO_DEVICE, dependencies = [],
      not_ready = [], exec_info = [], captured_vars = [], leaf_streams = [],
      future_result = Pending, cpu_ready_queue = q\<rparr>"

text \<open>
  Modelled from the spec: \<open>GraphRoot\<close> is declared in functions/basic_ops.h, which is
  not among the sources; the spec: ``a synthetic \<open>GraphRoot\<close> (whose \<open>apply\<close> returns the
  seed gradients)''.  Making one adds a node object at an address no node has.
\<close>

definition fresh_node :: "graph \<Rightarrow> Edge list \<Rightarrow> node" where
  "fresh_node g roots =
     Suc (fold max
            (map fst g @ concat (map (\<lambda>(n, es). List.map_filter edge_function es) g) @
             List.map_filter edge_function roots) 0)"

definition with_GraphRoot :: "env \<Rightarrow> node \<Rightarrow> Edge list \<Rightarrow> variable_list \<Rightarrow> env" where
  "with_GraphRoot lib root roots seeds =
     lib\<lparr>nodes := (root, roots) # nodes lib,
         num_inputs := (num_inputs lib)(root := 0),
         apply_fn := (apply_fn lib)(root := (\<lambda>vs. Inr seeds)),
         pre_hooks := (pre_hooks lib)(root := []),
         post_hooks := (post_hooks lib)(root := []),
         node_stream := (node_stream lib)(root := None)\<rparr>"

definition set_owner :: "gt_ref \<Rightarrow> int \<Rightarrow> state \<Rightarrow> state" where
  "set_owner r dev s =
     (case map_of (graph_tasks s) r of
        None \<Rightarrow> s
      | Some graph_task \<Rightarrow> put_graph_task r (graph_task\<lparr>owner := dev\<rparr>) s)"

definition wait_result :: "gt_ref \<Rightarrow> state \<Rightarrow> variable_list outcome" where
  "wait_result r s =
     (case map_of (graph_tasks s) r of
        None \<Rightarrow> Undefined
      | Some graph_task \<Rightarrow> future_wait (future_result graph_task))"

definition kCPU_device :: Device where
  "kCPU_device = \<lparr>device_type = kCPU, device_index = - 1\<rparr>"

definition execute_with_graph_task ::
  "nat \<Rightarrow> env \<Rightarrow> gt_ref \<Rightarrow> node \<Rightarrow> state \<Rightarrow> (variable_list outcome \<times> state) option" where
  "execute_with_graph_task fuel lib r graph_root s0 =
     (let s = call_once_start_device_threads lib s0 in
      case map_of (graph_tasks s) r of
        None \<Rightarrow> Some (Undefined, s)
      | Some graph_task \<Rightarrow>
          (case ready_queue s graph_task kCPU_device of
             Inl e \<Rightarrow> Some (Raised e, s)
           | Inr q \<Rightarrow>
               (case ReadyQueue_push q
                       \<lparr>base = Some r, fn = Some graph_root, inputs = [], isShutdownTask = False\<rparr>
                       True s of
                  Inl e \<Rightarrow> Some (Raised e, s)
                | Inr s1 \<Rightarrow>
                    if worker_device s1 = NO_DEVICE then
                      (let s2 = set_device CPU_DEVICE s1;
                           s3 = set_owner r (worker_device s2) s2
                       in case thread_main fuel lib None False s3 of
                            None \<Rightarrow> None
                          | Some (Returned u, s4) \<Rightarrow>
                              (let s5 = s4\<lparr>worker_device := NO_DEVICE, local_ready_queue := None\<rparr>
                               in Some (wait_result r s5, s5))
                          | Some (Raised e, s4) \<Rightarrow> Some (Raised e, s4)
                          | Some (Blocked, s4) \<Rightarrow> Some (Blocked, s4)
                          | Some (Undefined, s4) \<Rightarrow> Some (Undefined, s4))
                    else
                      (let s2 = set_owner r (worker_device s1) s1 in
                       if sint (max_recursion_depth s2) \<le> sint (current_depth s2) then
                         (let s3 = add_thread_pool_task r s2 in Some (wait_result r s3, s3))
                       else
                         (let s3 = s2\<lparr>total_depth := total_depth s2 + 1,
                                       current_depth := current_depth s2 + 1\<rparr>
                          in case thread_main fuel lib (Some r) True s3 of
                               None \<Rightarrow> None
                             | Some (Returned u, s4) \<Rightarrow>
                                 (let s5 = s4\<lparr>current_depth := current_depth s4 - 1,
                                               total_depth := total_depth s4 - 1\<rparr>
                                  in case map_of (graph_tasks s5) r of
                                       None \<Rightarrow> Some (Undefined, s5)
                                     | Some gt \<Rightarrow>
                                         if \<not> completed (future_result gt)
                                         then Some (Raised (InternalAssert
                                                ''graph_task->future_result_->completed()''), s5)
                                         else Some (wait_result r s5, s5))
                             | Some (Raised e, s4) \<Rightarrow> Some (Raised e, s4)
                             | Some (Blocked, s4) \<Rightarrow> Some (Blocked, s4)
                             | Some (Undefined, s4) \<Rightarrow> Some (Undefined, s4))))))"

text \<open>
  Lines 710--739 of \<open>execute\<close>: the queue, the new graph task, the root, the dependency
  analysis.  The result is the world with the root in it, the new graph task and the
  root.
\<close>

definition execute_setup ::
  "env \<Rightarrow> Edge list \<Rightarrow> variable_list \<Rightarrow> bool \<Rightarrow> bool \<Rightarrow> Edge list \<Rightarrow> state
     \<Rightarrow> (env \<times> gt_ref \<times> node) outcome \<times> state" where
  "execute_setup lib roots seeds keep create_graph outputs s =
     (let is_reentrant_call = (worker_device s \<noteq> NO_DEVICE) in
      case (if is_reentrant_call then Inr s
            else (case make_ReadyQueue s of (q, s') \<Rightarrow> init_local_ready_queue q s')) of
        Inl e \<Rightarrow> (Raised e, s)
      | Inr s1 \<Rightarrow>
          (let memorized_cpu_ready_queue = local_ready_queue s1;
               graph_task = new_GraphTask keep create_graph
                              (if worker_device s1 = NO_DEVICE then 0 else total_depth s1 + 1)
                              memorized_cpu_ready_queue (exit_on_error_default lib);
               graph_root = fresh_node (nodes lib) roots;
               lib' = with_GraphRoot lib graph_root roots seeds;
               gt1 = compute_dependencies (nodes lib') graph_root graph_task
           in case (if outputs \<noteq> [] then init_to_execute (nodes lib') graph_root outputs gt1
                    else Some gt1) of
                None \<Rightarrow> (Undefined, s1)
              | Some gt2 \<Rightarrow>
                  (let r = fresh_ref (graph_tasks s1)
                   in (Returned (lib', r, graph_root), put_graph_task r gt2 s1))))"

text \<open>
  Leaving \<open>execute\<close> by return or exception: \<open>ClearCallbacks\<close> clears the callbacks and the
  last shared pointer to the graph task goes, so the weak pointers to it expire.
\<close>

definition leave_execute :: "gt_ref \<Rightarrow> variable_list outcome \<Rightarrow> state \<Rightarrow> state" where
  "leave_execute r out s =
     (case out of
        Blocked \<Rightarrow> s
      | Undefined \<Rightarrow> s
      | _ \<Rightarrow> s\<lparr>final_callbacks := [], graph_tasks := AList.delete r (graph_tasks s)\<rparr>)"

definition execute ::
  "nat \<Rightarrow> env \<Rightarrow> Edge list \<Rightarrow> variable_list \<Rightarrow> bool \<Rightarrow> bool \<Rightarrow> Edge list \<Rightarrow> state
     \<Rightarrow> (variable_list outcome \<times> state) option" where
  "execute fuel lib roots ins keep create_graph outputs s0 =
     (case validate_outputs lib roots ins (\<lambda>msg. msg) of
        Inl e \<Rightarrow> Some (Raised e, s0)
      | Inr seeds \<Rightarrow>
          (case execute_setup lib roots seeds keep create_graph outputs
                  (s0\<lparr>final_callbacks := []\<rparr>) of
             (Returned (lib', r, graph_root), s1) \<Rightarrow>
               (case execute_with_graph_task fuel lib' r graph_root s1 of
                  None \<Rightarrow> None
                | Some (out, s2) \<Rightarrow> Some (out, leave_execute r out s2))
           | (Raised e, s1) \<Rightarrow> Some (Raised e, s1\<lparr>final_callbacks := []\<rparr>)
           | (Blocked, s1) \<Rightarrow> Some (Blocked, s1)
           | (Undefined, s1) \<Rightarrow> Some (Undefined, s1)))"

subsection \<open>An example world\<close>

text \<open>
  The graph of the spec's scenario 5, \<open>A \<rightarrow> B \<rightarrow> {C, D}\<close>, with \<open>A\<close>, \<open>B\<close>, \<open>C\<close>, \<open>D\<close> at the
  addresses 1 to 4; every function returns one float tensor of shape \<open>[2]\<close> on the CPU
  for each of its edges.  The witnesses below run the engine in this world.
\<close>

definition float_cpu :: TensorOptions where
  "float_cpu = \<lparr>dtype = kFloat, opt_device = kCPU_device, opt_sparse = False\<rparr>"

definition example_tensor :: "nat \<Rightarrow> int list \<Rightarrow> Tensor" where
  "example_tensor k shape = \<lparr>sizes = shape, options = float_cpu, storage = k\<rparr>"

definition example_edge :: "node \<Rightarrow> nat \<Rightarrow> Edge" where
  "example_edge n k = \<lparr>edge_function = Some n, input_nr = k\<rparr>"

definition example_graph :: graph where
  "example_graph =
     [(1, [example_edge 2 0]), (2, [example_edge 3 0, example_edge 4 0]), (3, []), (4, [])]"

fun expands :: "int list \<Rightarrow> int list \<Rightarrow> bool" where
  "expands [] ds = True"
| "expands (x # xs) [] = False"
| "expands (x # xs) (d # ds) = ((x = d \<or> x = 1) \<and> expands xs ds)"

definition example_buffer_add :: "variable_list \<Rightarrow> nat \<Rightarrow> Variable \<Rightarrow> variable_list" where
  "example_buffer_add buf pos v =
     (case v of
        None \<Rightarrow> buf
      | Some t \<Rightarrow>
          (case buf ! pos of
             None \<Rightarrow> buf[pos := Some t]
           | Some old \<Rightarrow> buf[pos := Some (old\<lparr>storage := storage old + storage t\<rparr>)]))"

definition example_env :: env where
  "example_env =
     \<lparr>nodes = example_graph,
      num_inputs = (\<lambda>n. 1),
      input_metadata = (\<lambda>n k. \<lparr>md_options = float_cpu, md_shape = [2], md_device = kCPU_device\<rparr>),
      apply_fn = (\<lambda>n vs. Inr (map (\<lambda>e. Some (example_tensor (10 * n) [2]))
                                 (next_edges_of example_graph n))),
      pre_hooks = (\<lambda>n. []),
      post_hooks = (\<lambda>n. []),
      node_stream = (\<lambda>n. None),
      is_expandable_to = (\<lambda>shape desired. expands (rev shape) (rev desired)),
      sum_to = (\<lambda>t shape. t\<lparr>sizes := shape\<rparr>),
      isFloatingType = (\<lambda>d. d = kHalf \<or> d = kFloat \<or> d = kDouble \<or> d = kBFloat16),
      to_dtype = (\<lambda>t d. t\<lparr>options := (options t)\<lparr>dtype := d\<rparr>\<rparr>),
      type_equal = (\<lambda>a b. dtype a = dtype b \<and> opt_sparse a = opt_sparse b \<and>
                          device_type (opt_device a) = device_type (opt_device b)),
      has_nan = (\<lambda>t. False),
      buffer_add = example_buffer_add,
      buffer_device = (\<lambda>buf. kCPU_device),
      anomaly_enabled = False,
      heap_top = (\<lambda>depth h. 0),
      device_count = 0,
      run_callback = (\<lambda>cb. None),
      can_checkpoint = (\<lambda>gt. exec_info gt = []),
      exit_on_error_default = False\<rparr>"




definition example_task :: "gt_ref \<Rightarrow> node option \<Rightarrow> NodeTask" where
  "example_task r f = \<lparr>base = Some r, fn = f, inputs = [], isShutdownTask = False\<rparr>"

definition two_device_engine :: "NodeTask list \<Rightarrow> state" where
  "two_device_engine h = Engine\<lparr>device_ready_queues := [0, 1], ready_queues := [(0, []), (1, h)]\<rparr>"

definition example_graph_task :: GraphTask where
  "example_graph_task = new_GraphTask False False 3 (Some 0) False"

definition one_task_engine :: "GraphTask \<Rightarrow> state" where
  "one_task_engine gt = Engine\<lparr>graph_tasks := [(1, gt)], ready_queues := [(0, [])]\<rparr>"

subsection \<open>Predicates for the statements\<close>

text \<open>
  \<open>extends s s'\<close>: from \<open>s\<close> to \<open>s'\<close> the log has only grown, by events other than an
  entry into \<open>thread_main\<close>, and the thread-locals and the members of the engine that
  only \<open>execute\<close> writes are as they were.
\<close>

definition no_entry :: "event list \<Rightarrow> bool" where
  "no_entry evs = list_all (\<lambda>ev. case ev of Entered_thread_main g b \<Rightarrow> False | _ \<Rightarrow> True) evs"

definition extends :: "state \<Rightarrow> state \<Rightarrow> bool" where
  "extends s s' \<longleftrightarrow>
     (\<exists>evs. trace s' = trace s @ evs \<and> no_entry evs) \<and>
     worker_device s' = worker_device s \<and> local_ready_queue s' = local_ready_queue s \<and>
     current_depth s' = current_depth s \<and> total_depth s' = total_depth s \<and>
     max_recursion_depth s' = max_recursion_depth s \<and>
     device_ready_queues s' = device_ready_queues s \<and>
     device_threads_started s' = device_threads_started s \<and>
     graphtasks_queue s' = graphtasks_queue s \<and> final_callbacks s' = final_callbacks s"


definition failing_env :: env where
  "failing_env =
     example_env\<lparr>nodes := [(1, []), (2, []), (3, [])],
       apply_fn := (\<lambda>n vs. if n = 1 then Inl (NodeError ''boom'') else Inr [])\<rparr>"

definition errored_graph_task :: GraphTask where
  "errored_graph_task =
     example_graph_task\<lparr>has_error := True, future_result := Errored (NodeError ''boom''),
       outstanding_tasks := 2\<rparr>"

definition errored_engine :: state where
  "errored_engine =
     Engine\<lparr>worker_device := CPU_DEVICE, local_ready_queue := Some 0,
       ready_queues := [(0, [example_task 1 (Some 2), example_task 1 (Some 3)])],
       graph_tasks := [(1, errored_graph_task)]\<rparr>"

text \<open>
  A reentrant caller: a CPU worker thread at a given \<open>current_depth\<close>, with a graph task
  prepared for the example graph under a graph root (node 5).
\<close>

definition rooted_env :: env where
  "rooted_env = with_GraphRoot example_env 5 [example_edge 1 0] [Some (example_tensor 7 [2])]"

definition reentrant_engine :: "int32 \<Rightarrow> state" where
  "reentrant_engine depth =
     Engine\<lparr>worker_device := CPU_DEVICE, local_ready_queue := Some 0, ready_queues := [(0, [])],
       current_depth := depth, total_depth := 4,
       graph_tasks := [(1, compute_dependencies (nodes rooted_env) 5
                             (new_GraphTask False False 5 (Some 0) False))]\<rparr>"

text \<open>
  \<open>latch_kept s s'\<close>: every graph task of \<open>s\<close> is still there in \<open>s'\<close>, with its
  \<open>has_error_\<close>, its \<open>exit_on_error_\<close> and its future as they were.
\<close>

definition latch_kept :: "state \<Rightarrow> state \<Rightarrow> bool" where
  "latch_kept s s' \<longleftrightarrow>
     (\<forall>r gt. map_of (graph_tasks s) r = Some gt \<longrightarrow>
        (\<exists>gt'. map_of (graph_tasks s') r = Some gt' \<and> has_error gt' = has_error gt \<and>
               future_result gt' = future_result gt \<and> exit_on_error gt' = exit_on_error gt))"



text \<open>
  The worker thread after it has popped the task of node 1, with the tasks of nodes 2
  and 3 in its queue; and the queue of a graph task with an error whose
  \<open>exit_on_error_\<close> is set.
\<close>

definition throwing_engine :: state where
  "throwing_engine =
     Engine\<lparr>worker_device := CPU_DEVICE, local_ready_queue := Some 0,
       ready_queues := [(0, [example_task 1 (Some 2), example_task 1 (Some 3)])],
       graph_tasks := [(1, example_graph_task\<lparr>outstanding_tasks := 3\<rparr>)]\<rparr>"

definition exiting_engine :: state where
  "exiting_engine = errored_engine\<lparr>graph_tasks := [(1, errored_graph_task\<lparr>exit_on_error := True\<rparr>)]\<rparr>"



text \<open>
  The graph under a root: the successors of a node (the functions of its valid edges,
  one for each edge), the nodes that can be reached, the absence of a cycle among
  them, and the number of edges from reachable nodes into a node.  \<open>ranked\<close> is a
  test for the absence of cycles that can be computed.
\<close>

definition successors :: "graph \<Rightarrow> node \<Rightarrow> node list" where
  "successors g n = List.map_filter edge_function (next_edges_of g n)"

definition edge_rel :: "graph \<Rightarrow> (node \<times> node) set" where
  "edge_rel g = {(n, m). m \<in> set (successors g n)}"

definition reachable :: "graph \<Rightarrow> node \<Rightarrow> node set" where
  "reachable g root = (edge_rel g)\<^sup>* `` {root}"

definition is_dag_from :: "graph \<Rightarrow> node \<Rightarrow> bool" where
  "is_dag_from g root \<longleftrightarrow> (\<forall>n \<in> reachable g root. (n, n) \<notin> (edge_rel g)\<^sup>+)"

definition in_degree :: "graph \<Rightarrow> node \<Rightarrow> node \<Rightarrow> nat" where
  "in_degree g root n = (\<Sum>p \<in> reachable g root. count_list (successors g p) n)"

definition ranked :: "graph \<Rightarrow> (node \<Rightarrow> nat) \<Rightarrow> bool" where
  "ranked g rank =
     list_all (\<lambda>(n, es). list_all (\<lambda>e. case edge_function e of None \<Rightarrow> True
                                         | Some m \<Rightarrow> rank m < rank n) es) g"

definition dep_count :: "(node \<times> int) list \<Rightarrow> node \<Rightarrow> int" where
  "dep_count deps n = (case map_of deps n of None \<Rightarrow> 0 | Some c \<Rightarrow> c)"

text \<open>
  The test of lines 616--620 and 626, on the graph task before the count is changed:
  the successor has a buffer, or \<open>exec_info_\<close> is empty or says it should execute.
\<close>

definition enqueue_gate :: "GraphTask \<Rightarrow> node \<Rightarrow> bool" where
  "enqueue_gate gt n \<longleftrightarrow>
     map_of (not_ready gt) n \<noteq> None \<or> exec_info gt = [] \<or> should_execute_at (exec_info gt) (Some n)"

text \<open>
  \<open>pushes r evs\<close>: the nodes pushed for graph task \<open>r\<close> in \<open>evs\<close>, in order.
  \<open>waiting s r\<close>: the nodes with an entry in \<open>dependencies_\<close>.  \<open>once r s s'\<close>: from \<open>s\<close>
  to \<open>s'\<close> the log has grown by pushes for \<open>r\<close> of different nodes, each of which had
  an entry in \<open>s\<close> and has none in \<open>s'\<close>, and no entry has been added.
\<close>

definition pushes :: "gt_ref \<Rightarrow> event list \<Rightarrow> node list" where
  "pushes r evs =
     List.map_filter (\<lambda>ev. case ev of
                             Pushed (Some r') (Some n) \<Rightarrow> if r' = r then Some n else None
                           | _ \<Rightarrow> None) evs"

definition waiting :: "state \<Rightarrow> gt_ref \<Rightarrow> node set" where
  "waiting s r = (case map_of (graph_tasks s) r of
                    None \<Rightarrow> {}
                  | Some gt \<Rightarrow> dom (map_of (dependencies gt)))"

definition once :: "gt_ref \<Rightarrow> state \<Rightarrow> state \<Rightarrow> bool" where
  "once r s s' \<longleftrightarrow>
     (\<exists>evs. trace s' = trace s @ evs \<and> distinct (pushes r evs) \<and>
            set (pushes r evs) \<subseteq> waiting s r - waiting s' r) \<and>
     waiting s' r \<subseteq> waiting s r"

text \<open>
  The graph task that \<open>execute\<close> prepares for the example graph when the output
  \<open>(C, 0)\<close> is asked for, and a thread with it.
\<close>

definition gated_task :: GraphTask where
  "gated_task =
     (case init_to_execute (nodes rooted_env) 5 [example_edge 3 0]
            (compute_dependencies (nodes rooted_env) 5 (new_GraphTask False False 0 (Some 0) False)) of
        Some task \<Rightarrow> task
      | None \<Rightarrow> new_GraphTask False False 0 (Some 0) False)"

definition gated_engine :: state where
  "gated_engine = Engine\<lparr>local_ready_queue := Some 0, ready_queues := [(0, [])],
                          graph_tasks := [(1, gated_task)]\<rparr>"

section \<open>Theorems\<close>

subsection \<open>validate_outputs\<close>

lemma validate_loop_length:
  "validate_loop lib fe edges grads i = Inr grads' \<Longrightarrow> length grads' = length grads"
  by (induction lib fe edges grads i rule: validate_loop.induct)
     (subst (asm) validate_loop.simps, auto split: if_splits sum.splits)

lemma validate_loop_before:
  "validate_loop lib fe edges grads i = Inr grads' \<Longrightarrow> j < i \<Longrightarrow> grads' ! j = grads ! j"
proof (induction lib fe edges grads i rule: validate_loop.induct)
  case (1 lib fe edges grads i)
  show ?case
  proof (cases "i < length grads")
    case False
    with "1.prems" show ?thesis by (simp add: validate_loop.simps)
  next
    case True
    with "1.prems" obtain v where v: "validate_index lib fe (edges ! i) i (grads ! i) = Inr v"
      and rest: "validate_loop lib fe edges (grads[i := v]) (Suc i) = Inr grads'"
      by (subst (asm) validate_loop.simps) (auto split: sum.splits)
    from "1.IH"[OF True v rest] "1.prems"(2) show ?thesis by simp
  qed
qed

lemma validate_loop_at:
  "validate_loop lib fe edges grads i = Inr grads' \<Longrightarrow> i \<le> j \<Longrightarrow> j < length grads \<Longrightarrow>
   validate_index lib fe (edges ! j) j (grads ! j) = Inr (grads' ! j)"
proof (induction lib fe edges grads i rule: validate_loop.induct)
  case (1 lib fe edges grads i)
  from "1.prems" have True: "i < length grads" by simp
  with "1.prems" obtain v where v: "validate_index lib fe (edges ! i) i (grads ! i) = Inr v"
    and rest: "validate_loop lib fe edges (grads[i := v]) (Suc i) = Inr grads'"
    by (subst (asm) validate_loop.simps) (auto split: sum.splits)
  show ?case
  proof (cases "j = i")
    case True
    have "grads' ! i = (grads[i := v]) ! i"
      using validate_loop_before[OF rest, of i] by simp
    with v True \<open>i < length grads\<close> show ?thesis by simp
  next
    case False
    with "1.prems" have "Suc i \<le> j" by simp
    from "1.IH"[OF True v rest this] "1.prems"(3) False show ?thesis by simp
  qed
qed


lemma validate_loop_skip:
  "i < length grads \<Longrightarrow> validate_index lib fe (edges ! i) i (grads ! i) = Inr (grads ! i) \<Longrightarrow>
   validate_loop lib fe edges grads i = validate_loop lib fe edges grads (Suc i)"
  by (subst validate_loop.simps) simp







text \<open>
  Claim C6.  At an index whose gradient is undefined, the loop body checks nothing and
  leaves \<open>grads[i]\<close> as it is: the iteration is the same as going on to \<open>i + 1\<close>, no
  exception of \<open>validate_outputs\<close> comes from this index, and when the function
  returns the gradient is still undefined.
\<close>

theorem validate_outputs_undefined_gradient:
  assumes i: "i < length grads" and undef: "grads ! i = None"
  shows "validate_index lib fe (edges ! i) i (grads ! i) = Inr None \<and>
         validate_loop lib fe edges grads i = validate_loop lib fe edges grads (Suc i) \<and>
         (\<forall>grads'. validate_outputs lib edges grads fe = Inr grads' \<longrightarrow> grads' ! i = None) \<and>
         (\<forall>j e. j < length grads \<and> validate_index lib fe (edges ! j) j (grads ! j) = Inl e \<longrightarrow> j \<noteq> i)"
proof -
  have idx: "validate_index lib fe (edges ! i) i (grads ! i) = Inr None"
    using undef by (simp add: validate_index_def split: option.splits)
  have skip: "validate_loop lib fe edges grads i = validate_loop lib fe edges grads (Suc i)"
    using validate_loop_skip[OF i, of lib fe edges] idx undef by simp
  have out: "grads' ! i = None" if "validate_outputs lib edges grads fe = Inr grads'" for grads'
  proof -
    from that have loop: "validate_loop lib fe edges grads 0 = Inr grads'"
      by (auto simp: validate_outputs_def split: if_splits)
    from validate_loop_at[OF loop _ i] idx show ?thesis by simp
  qed
  show ?thesis using idx skip out by auto
qed


theorem validate_outputs_undefined_gradient_witness:
  "validate_outputs example_env [example_edge 1 0, example_edge 2 0]
      [None, Some (example_tensor 7 [2])] (\<lambda>msg. msg) = Inr [None, Some (example_tensor 7 [2])] \<and>
   [None, Some (example_tensor 7 [2])] ! 0 = None \<and>
   validate_index example_env (\<lambda>msg. msg) (example_edge 1 0) 0 None = Inr None"
proof -
  have a: "validate_outputs example_env [example_edge 1 0, example_edge 2 0]
      [None, Some (example_tensor 7 [2])] (\<lambda>msg. msg) = Inr [None, Some (example_tensor 7 [2])]"
    by (simp add: validate_outputs_def validate_loop.simps validate_index_def validate_grad_def
        example_env_def example_edge_def example_tensor_def float_cpu_def kCPU_device_def
        scalar_type_def device_def is_compatible_type_def Let_def)
  from validate_outputs_undefined_gradient
    [of 0 "[None, Some (example_tensor 7 [2])]" example_env "\<lambda>msg. msg"
        "[example_edge 1 0, example_edge 2 0]"] a
  show ?thesis by simp
qed

subsection \<open>The destructor of Engine\<close>

lemma heap_of_set_heap:
  "heap_of (set_heap q h s) q' = (if q' = q then h else heap_of s q')"
  by (simp add: heap_of_def set_heap_def update_conv')

lemma heap_of_pushShutdownTask:
  "heap_of (pushShutdownTask q s) q' =
     (if q' = q then heap_of s q @ [shutdown_task] else heap_of s q')"
  by (simp add: pushShutdownTask_def heap_of_set_heap)

lemma heap_of_fold_pushShutdownTask:
  "heap_of (fold pushShutdownTask qs s) q =
     heap_of s q @ replicate (count_list qs q) shutdown_task"
proof (induction qs arbitrary: s)
  case Nil
  then show ?case by simp
next
  case (Cons a qs)
  show ?case
    by (simp add: Cons.IH heap_of_pushShutdownTask replicate_app_Cons_same)
qed

lemma fold_noBackward:
  "fold (\<lambda>queue noBackward. noBackward \<and> P queue) qs b = (b \<and> (\<forall>queue \<in> set qs. P queue))"
  by (induction qs arbitrary: b) auto

text \<open>
  Claim C10.  When every device ready queue is empty, the destructor is the push of
  a shutdown task onto each of them (a queue listed \<open>k\<close> times holds \<open>k\<close> of them
  afterwards); when one of them is not empty, the destructor changes nothing.  So
  every listed queue has grown if and only if every listed queue was empty.  The
  worker threads are other threads: that they are leaked is not part of the model.
\<close>

theorem Engine_destructor_shutdown:
  "((\<forall>queue \<in> set (device_ready_queues s). ReadyQueue_empty s queue) \<longrightarrow>
      Engine_destructor s = fold pushShutdownTask (device_ready_queues s) s \<and>
      (\<forall>queue \<in> set (device_ready_queues s).
         heap_of (Engine_destructor s) queue =
           replicate (count_list (device_ready_queues s) queue) shutdown_task \<and>
         shutdown_task \<in> set (heap_of (Engine_destructor s) queue))) \<and>
   ((\<exists>queue \<in> set (device_ready_queues s). \<not> ReadyQueue_empty s queue) \<longrightarrow>
      Engine_destructor s = s) \<and>
   ((\<forall>queue \<in> set (device_ready_queues s).
       length (heap_of s queue) < length (heap_of (Engine_destructor s) queue)) \<longleftrightarrow>
    (\<forall>queue \<in> set (device_ready_queues s). ReadyQueue_empty s queue))"
proof -
  let ?qs = "device_ready_queues s"
  let ?all = "\<forall>queue \<in> set ?qs. ReadyQueue_empty s queue"
  have yes: "Engine_destructor s = fold pushShutdownTask ?qs s" if ?all
    using that by (simp add: Engine_destructor_def fold_noBackward)
  have no: "Engine_destructor s = s" if "\<not> ?all"
    using that by (auto simp: Engine_destructor_def fold_noBackward)
  have heaps: "heap_of (Engine_destructor s) queue = replicate (count_list ?qs queue) shutdown_task"
    if ?all "queue \<in> set ?qs" for queue
    using that yes by (simp add: heap_of_fold_pushShutdownTask ReadyQueue_empty_def)
  have pos: "0 < count_list ?qs queue" if "queue \<in> set ?qs" for queue
    using that count_list_0_iff[of ?qs queue] by auto
  have mem: "shutdown_task \<in> set (heap_of (Engine_destructor s) queue)"
    if ?all "queue \<in> set ?qs" for queue
    using heaps[OF that] pos[OF that(2)] by simp
  have grows: "length (heap_of s queue) < length (heap_of (Engine_destructor s) queue)"
    if ?all "queue \<in> set ?qs" for queue
    using yes[OF that(1)] pos[OF that(2)] by (simp add: heap_of_fold_pushShutdownTask)
  have iff: "(\<forall>queue \<in> set ?qs. length (heap_of s queue) < length (heap_of (Engine_destructor s) queue))
               \<longleftrightarrow> ?all"
  proof (cases ?all)
    case True
    with grows show ?thesis by blast
  next
    case False
    then obtain q where "q \<in> set ?qs" by blast
    with no[OF False] False show ?thesis by auto
  qed
  show ?thesis using yes no heaps mem iff by blast
qed

theorem Engine_destructor_shutdown_witness:
  "heap_of (Engine_destructor (two_device_engine [])) 0 = [shutdown_task] \<and>
   heap_of (Engine_destructor (two_device_engine [])) 1 = [shutdown_task] \<and>
   Engine_destructor (two_device_engine [example_task 1 (Some 2)])
     = two_device_engine [example_task 1 (Some 2)]"
proof -
  let ?idle = "two_device_engine []"
  let ?busy = "two_device_engine [example_task 1 (Some 2)]"
  have q: "device_ready_queues ?idle = [0, 1]" "device_ready_queues ?busy = [0, 1]"
    by (simp_all add: two_device_engine_def Engine_def)
  have e: "\<forall>queue \<in> set (device_ready_queues ?idle). ReadyQueue_empty ?idle queue"
    by (simp add: two_device_engine_def ReadyQueue_empty_def heap_of_def Engine_def)
  have n: "\<exists>queue \<in> set (device_ready_queues ?busy). \<not> ReadyQueue_empty ?busy queue"
    by (simp add: two_device_engine_def ReadyQueue_empty_def heap_of_def Engine_def)
  from Engine_destructor_shutdown[of ?idle] e
  have all: "\<forall>queue \<in> set (device_ready_queues ?idle).
         heap_of (Engine_destructor ?idle) queue =
           replicate (count_list (device_ready_queues ?idle) queue) shutdown_task"
    by blast
  have a: "heap_of (Engine_destructor ?idle) 0 = [shutdown_task]"
    using all[rule_format, of 0] by (simp add: q)
  have b: "heap_of (Engine_destructor ?idle) 1 = [shutdown_task]"
    using all[rule_format, of 1] by (simp add: q)
  from Engine_destructor_shutdown[of ?busy] n
  have c: "Engine_destructor ?busy = ?busy" by blast
  show ?thesis using a b c by simp
qed

subsection \<open>The priority of a task whose graph task is gone\<close>

lemma sint_INT_MAX: "sint INT_MAX = 2147483647"
  by (simp add: INT_MAX_def)

lemma sint_le_INT_MAX: "sint (w :: int32) \<le> sint INT_MAX"
  using sint_lt[of w] by (simp add: sint_INT_MAX)

lemma sint_less_INT_MAX: "w \<noteq> INT_MAX \<Longrightarrow> sint (w :: int32) < sint INT_MAX"
proof -
  assume ne: "w \<noteq> INT_MAX"
  have "sint w \<noteq> sint INT_MAX"
  proof
    assume "sint w = sint INT_MAX"
    then have "word_of_int (sint w) = (word_of_int (sint INT_MAX) :: int32)" by simp
    then have "w = INT_MAX" by simp
    with ne show False by simp
  qed
  with sint_le_INT_MAX[of w] show ?thesis by simp
qed

text \<open>
  Claim C8.  \<open>getReentrantDepth\<close> is the graph task's \<open>reentrant_depth_\<close> while the weak
  pointer locks, and the largest \<open>int\<close>, \<open>2^31 - 1\<close>, when it has expired.  No task has
  a larger depth.  In the order of the heap as the spec gives it, a task that is not
  a shutdown task and whose graph task has expired is never behind another task that
  is not a shutdown task, is ahead of every task of a live graph task (whose depth
  is not itself the largest \<open>int\<close>), and is behind every shutdown task.
\<close>

theorem getReentrantDepth_expired_first:
  "(\<forall>r graph_task. lock s (base task) = Some (r, graph_task) \<longrightarrow>
       getReentrantDepth s task = reentrant_depth graph_task) \<and>
   (lock s (base task) = None \<longrightarrow>
       getReentrantDepth s task = INT_MAX \<and>
       sint (getReentrantDepth s task) = 2 ^ 31 - 1 \<and>
       (\<forall>t. sint (getReentrantDepth s t) \<le> sint (getReentrantDepth s task)) \<and>
       (\<not> isShutdownTask task \<longrightarrow>
          (\<forall>t. \<not> isShutdownTask t \<longrightarrow> \<not> CompareNodeTaskTime s task t) \<and>
          (\<forall>t r graph_task.
             \<not> isShutdownTask t \<and> lock s (base t) = Some (r, graph_task) \<and>
             reentrant_depth graph_task \<noteq> INT_MAX \<longrightarrow> CompareNodeTaskTime s t task) \<and>
          (\<forall>t. isShutdownTask t \<longrightarrow> CompareNodeTaskTime s task t \<and> \<not> CompareNodeTaskTime s t task)))"
proof -
  have live: "getReentrantDepth s task = reentrant_depth graph_task"
    if "lock s (base task) = Some (r, graph_task)" for r graph_task
    using that by (simp add: getReentrantDepth_def)
  have expired: "getReentrantDepth s task = INT_MAX" if "lock s (base task) = None"
    using that by (simp add: getReentrantDepth_def)
  have top: "sint (getReentrantDepth s t) \<le> sint (getReentrantDepth s task)"
    if "lock s (base task) = None" for t
    using expired[OF that] sint_le_INT_MAX by simp
  have never_behind: "\<not> CompareNodeTaskTime s task t"
    if "lock s (base task) = None" "\<not> isShutdownTask task" "\<not> isShutdownTask t" for t
    using top[OF that(1), of t] that(2,3) by (simp add: CompareNodeTaskTime_def)
  have ahead: "CompareNodeTaskTime s t task"
    if "lock s (base task) = None" "\<not> isShutdownTask task" "\<not> isShutdownTask t"
       "lock s (base t) = Some (r, graph_task)" "reentrant_depth graph_task \<noteq> INT_MAX"
    for t r graph_task
  proof -
    have "getReentrantDepth s t = reentrant_depth graph_task"
      using that(4) by (simp add: getReentrantDepth_def)
    with sint_less_INT_MAX[OF that(5)] expired[OF that(1)] that(2,3)
    show ?thesis by (simp add: CompareNodeTaskTime_def)
  qed
  have shut: "CompareNodeTaskTime s task t \<and> \<not> CompareNodeTaskTime s t task"
    if "\<not> isShutdownTask task" "isShutdownTask t" for t
    using that by (simp add: CompareNodeTaskTime_def)
  have val: "sint (getReentrantDepth s task) = 2 ^ 31 - 1" if "lock s (base task) = None"
    using expired[OF that] by (simp add: sint_INT_MAX)
  show ?thesis using live expired top never_behind ahead shut val by blast
qed

theorem getReentrantDepth_expired_first_witness:
  "getReentrantDepth (one_task_engine example_graph_task) (example_task 1 (Some 2)) = 3 \<and>
   getReentrantDepth (one_task_engine example_graph_task) (example_task 9 (Some 2)) = INT_MAX \<and>
   CompareNodeTaskTime (one_task_engine example_graph_task)
     (example_task 1 (Some 2)) (example_task 9 (Some 2)) \<and>
   \<not> CompareNodeTaskTime (one_task_engine example_graph_task)
     (example_task 9 (Some 2)) (example_task 1 (Some 2)) \<and>
   CompareNodeTaskTime (one_task_engine example_graph_task) (example_task 9 (Some 2)) shutdown_task"
proof -
  let ?s = "one_task_engine example_graph_task"
  let ?live = "example_task 1 (Some 2)"
  let ?gone = "example_task 9 (Some 2)"
  have live: "lock ?s (base ?live) = Some (1, example_graph_task)"
    by (simp add: lock_def one_task_engine_def example_task_def Engine_def)
  have expired: "lock ?s (base ?gone) = None"
    by (simp add: lock_def one_task_engine_def example_task_def Engine_def)
  have depth: "reentrant_depth example_graph_task = 3"
    by (simp add: example_graph_task_def new_GraphTask_def)
  have ne: "reentrant_depth example_graph_task \<noteq> INT_MAX"
    by (simp add: example_graph_task_def new_GraphTask_def INT_MAX_def)
  have flags: "\<not> isShutdownTask ?live" "\<not> isShutdownTask ?gone" "isShutdownTask shutdown_task"
    by (simp_all add: example_task_def shutdown_task_def)
  note l = getReentrantDepth_expired_first[of ?s ?live, THEN conjunct1, rule_format, OF live]
  note g = getReentrantDepth_expired_first[of ?s ?gone, THEN conjunct2, rule_format, OF expired]
  have a: "getReentrantDepth ?s ?live = 3" using l depth by simp
  have b: "getReentrantDepth ?s ?gone = INT_MAX" using g by blast
  from g flags(2) have rest:
    "(\<forall>t. \<not> isShutdownTask t \<longrightarrow> \<not> CompareNodeTaskTime ?s ?gone t)"
    "(\<forall>t r graph_task.
             \<not> isShutdownTask t \<and> lock ?s (base t) = Some (r, graph_task) \<and>
             reentrant_depth graph_task \<noteq> INT_MAX \<longrightarrow> CompareNodeTaskTime ?s t ?gone)"
    "(\<forall>t. isShutdownTask t \<longrightarrow> CompareNodeTaskTime ?s ?gone t \<and> \<not> CompareNodeTaskTime ?s t ?gone)"
    by blast+
  have c: "CompareNodeTaskTime ?s ?live ?gone" using rest(2) flags(1) live ne by blast
  have d: "\<not> CompareNodeTaskTime ?s ?gone ?live" using rest(1) flags(1) by blast
  have e: "CompareNodeTaskTime ?s ?gone shutdown_task" using rest(3) flags(3) by blast
  show ?thesis using a b c d e by simp
qed

subsection \<open>What the worker loop leaves alone\<close>

lemma no_entry_simps [simp]:
  "no_entry []" "no_entry (evs @ evs') = (no_entry evs \<and> no_entry evs')"
  "no_entry [Applied n]" "no_entry [Pushed w f]" "\<not> no_entry [Entered_thread_main g b]"
  by (simp_all add: no_entry_def)

lemma extends_refl [simp]: "extends s s"
  by (simp add: extends_def)

lemma extends_trans: "extends s s' \<Longrightarrow> extends s' s'' \<Longrightarrow> extends s s''"
  by (auto simp: extends_def)

lemma extends_set_heap [simp]: "extends s (set_heap q h s)"
  by (simp add: extends_def set_heap_def)

lemma extends_put_graph_task [simp]: "extends s (put_graph_task r gt s)"
  by (simp add: extends_def put_graph_task_def)

lemma extends_checkpoint [simp]: "extends s (s\<lparr>checkpoint_valid := b\<rparr>)"
  by (simp add: extends_def)

lemma extends_log_Applied [simp]: "extends s (log_event (Applied n) s)"
  by (simp add: extends_def log_event_def)

lemma extends_log_Pushed [simp]: "extends s (log_event (Pushed w f) s)"
  by (simp add: extends_def log_event_def)

lemma extends_erase_not_ready [simp]: "extends s (erase_not_ready r n s)"
  by (simp add: erase_not_ready_def split: option.splits)

lemma extends_push_heap:
  "extends s (log_event (Pushed w f) (set_heap q h s))"
  by (rule extends_trans[OF extends_set_heap extends_log_Pushed])

lemma extends_push: "ReadyQueue_push q item inc s = Inr s' \<Longrightarrow> extends s s'"
proof -
  assume a: "ReadyQueue_push q item inc s = Inr s'"
  show ?thesis
  proof (cases inc)
    case False
    with a show ?thesis by (auto simp: ReadyQueue_push_def extends_push_heap)
  next
    case True
    with a obtain r gt where "lock s (base item) = Some (r, gt)"
      by (cases "lock s (base item)") (auto simp: ReadyQueue_push_def)
    with a True have "s' = log_event (Pushed (base item) (fn item))
        (set_heap q (heap_of (put_graph_task r (gt\<lparr>outstanding_tasks := outstanding_tasks gt + 1\<rparr>) s) q @ [item])
           (put_graph_task r (gt\<lparr>outstanding_tasks := outstanding_tasks gt + 1\<rparr>) s))"
      by (simp add: ReadyQueue_push_def Let_def)
    then show ?thesis
      using extends_trans[OF extends_put_graph_task extends_push_heap] by simp
  qed
qed

lemma extends_enqueue_ready: "extends s (snd (enqueue_ready lib r n buf s))"
  by (simp add: enqueue_ready_def extends_push split: option.splits sum.splits)

lemma extends_route_output: "extends s (snd (route_output lib r func i output s))"
proof -
  have e: "extends s (snd (enqueue_ready lib r n buf (put_graph_task r gt s)))" for n buf gt
    by (rule extends_trans[OF extends_put_graph_task extends_enqueue_ready])
  have e': "extends s (snd (case enqueue_ready lib r n buf (put_graph_task r gt s) of
                         (Returned u, s') \<Rightarrow> (Returned (), erase_not_ready r n s')
                       | other \<Rightarrow> other))" for n buf gt
    using e[of n buf gt]
    by (auto split: prod.splits outcome.splits intro: extends_trans[OF _ extends_erase_not_ready])
  show ?thesis
    unfolding route_output_def Let_def
    by (simp split: option.splits add: e e')
qed

lemma extends_route_loop: "extends s (snd (route_loop lib r func outputs idxs s))"
proof (induction idxs arbitrary: s)
  case Nil
  then show ?case by simp
next
  case (Cons i idxs)
  obtain out s1 where r: "route_output lib r func i (outputs ! i) s = (out, s1)"
    by (cases "route_output lib r func i (outputs ! i) s")
  have e1: "extends s s1" using extends_route_output[of s lib r func i "outputs ! i"] r by simp
  show ?case
  proof (cases out)
    case (Returned u)
    with r e1 Cons.IH[of s1] show ?thesis by (auto intro: extends_trans)
  qed (use r e1 in auto)
qed

lemma extends_call_function: "extends s (snd (call_function lib gt func ins s))"
proof -
  have a: "extends s (log_event (Applied func) (s\<lparr>checkpoint_valid := b\<rparr>))" for b
    by (rule extends_trans[OF extends_checkpoint extends_log_Applied])
  have b: "extends s ((log_event (Applied func) (s\<lparr>checkpoint_valid := b\<rparr>))\<lparr>checkpoint_valid := c\<rparr>)" for b c
    by (rule extends_trans[OF a extends_checkpoint])
  show ?thesis
    unfolding call_function_def Let_def
    by (simp split: sum.splits add: a b)
qed

lemma extends_run_function: "extends s (snd (run_function lib r func ins s))"
proof (cases "map_of (graph_tasks s) r")
  case None
  then show ?thesis by (simp add: run_function_def)
next
  case (Some gt)
  obtain out s1 where c: "call_function lib gt func ins s = (out, s1)"
    by (cases "call_function lib gt func ins s")
  have e1: "extends s s1" using extends_call_function[of s lib gt func ins] c by simp
  have e2: "extends s (put_graph_task r g s1)" for g
    by (rule extends_trans[OF e1 extends_put_graph_task])
  have e3: "extends s (snd (route_loop lib r func outs idxs s1))" for outs idxs
    by (rule extends_trans[OF e1 extends_route_loop])
  show ?thesis
    using Some c e1 e2 e3
    by (cases out) (auto simp: run_function_def split: option.splits)
qed

lemma extends_evaluate_function: "extends s (snd (evaluate_function lib r func ins s))"
proof -
  have e: "extends s (snd (run_function lib r func ins (put_graph_task r g s)))" for g
    by (rule extends_trans[OF extends_put_graph_task extends_run_function])
  show ?thesis
    unfolding evaluate_function_def Let_def
    by (simp split: option.splits add: e extends_run_function)
qed

lemma extends_thread_on_exception: "extends s (snd (thread_on_exception r e s))"
  by (simp add: thread_on_exception_def split: option.splits prod.splits)

lemma extends_run_task: "extends s (snd (run_task lib r gt task s))"
proof (cases "fn task")
  case None
  then show ?thesis by (simp add: run_task_def)
next
  case (Some f)
  obtain out s1 where c: "evaluate_function lib r f (inputs task) s = (out, s1)"
    by (cases "evaluate_function lib r f (inputs task) s")
  have e1: "extends s s1" using extends_evaluate_function[of s lib r f "inputs task"] c by simp
  have e2: "extends s (snd (thread_on_exception r e s1))" for e
    by (rule extends_trans[OF e1 extends_thread_on_exception])
  show ?thesis using Some c e1 e2 by (cases out) (auto simp: run_task_def)
qed

lemma extends_finish_task: "extends s (snd (finish_task lib r s))"
proof (cases "map_of (graph_tasks s) r")
  case None
  then show ?thesis by (simp add: finish_task_def)
next
  case (Some gt0)
  define gt1 where "gt1 = gt0\<lparr>outstanding_tasks := outstanding_tasks gt0 - 1\<rparr>"
  define gt2 where "gt2 = (if graph_task_completed gt1 then mark_graph_task_completed lib s gt1 else gt1)"
  define s1 where "s1 = put_graph_task r gt2 s"
  define wake where "wake = (case ready_queue_by_index s1 gt2 (owner gt2) of
           Inl e \<Rightarrow> (Raised e, s1)
         | Inr q \<Rightarrow>
             (case ReadyQueue_push q \<lparr>base = Some r, fn = None, inputs = [], isShutdownTask = False\<rparr>
                     True s1 of
                Inl e \<Rightarrow> (Raised e, s1)
              | Inr s2 \<Rightarrow> (Returned Continue, s2)))"
  have e1: "extends s s1" by (simp add: s1_def)
  have fin: "finish_task lib r s =
     (if graph_task_completed gt1 \<and> worker_device s = CPU_DEVICE then (Returned Break, s1)
      else if owner gt2 \<noteq> worker_device s \<and> graph_task_completed gt1 then wake
      else (Returned Continue, s1))"
    unfolding finish_task_def Let_def gt1_def gt2_def s1_def wake_def by (simp add: Some)
  have w: "extends s (snd wake)"
  proof (cases "ready_queue_by_index s1 gt2 (owner gt2)")
    case (Inl e)
    then show ?thesis using e1 by (simp add: wake_def)
  next
    case (Inr q)
    note q = this
    show ?thesis
    proof (cases "ReadyQueue_push q \<lparr>base = Some r, fn = None, inputs = [], isShutdownTask = False\<rparr> True s1")
      case (Inl e)
      then show ?thesis using e1 q by (simp add: wake_def)
    next
      case (Inr s2)
      have "extends s s2" by (rule extends_trans[OF e1 extends_push[OF Inr]])
      then show ?thesis using q Inr by (simp add: wake_def)
    qed
  qed
  show ?thesis unfolding fin using e1 w by simp
qed

lemma extends_pop: "extends s (snd (ReadyQueue_pop lib q s))"
  by (simp add: ReadyQueue_pop_def Let_def)

lemma extends_thread_main_task: "extends s (snd (thread_main_task lib re task s))"
proof (cases "lock s (base task)")
  case None
  then show ?thesis by (simp add: thread_main_task_def split: option.splits)
next
  case (Some p)
  obtain r gt where p: "p = (r, gt)" by (cases p)
  obtain out s1 where c: "run_task lib r gt task s = (out, s1)" by (cases "run_task lib r gt task s")
  have e1: "extends s s1" using extends_run_task[of s lib r gt task] c by simp
  have e2: "extends s (snd (finish_task lib r s1))"
    by (rule extends_trans[OF e1 extends_finish_task])
  have "thread_main_task lib re task s =
      (if isShutdownTask task then (Returned Break, s)
       else (case out of Returned u \<Rightarrow> finish_task lib r s1 | Raised e \<Rightarrow> (Raised e, s1)
             | Blocked \<Rightarrow> (Blocked, s1) | Undefined \<Rightarrow> (Undefined, s1)))"
    unfolding thread_main_task_def by (simp add: Some p c split: outcome.splits)
  then show ?thesis using e1 e2 by (simp split: outcome.splits)
qed

lemma extends_thread_main_loop:
  "thread_main_loop fuel lib g re s = Some (out, s') \<Longrightarrow> extends s s'"
proof (induction fuel arbitrary: s)
  case 0
  then show ?case by simp
next
  case (Suc fuel)
  show ?case
  proof (cases "loop_condition s g re")
    case None
    with Suc.prems show ?thesis by simp
  next
    case (Some b)
    show ?thesis
    proof (cases b)
      case False
      with Some Suc.prems show ?thesis by simp
    next
      case True
      show ?thesis
      proof (cases "local_ready_queue s")
        case None
        with Some True Suc.prems show ?thesis by simp
      next
        case (Some q)
        note q = this
        show ?thesis
        proof (cases "heap_of s q = []")
          case True
          with \<open>loop_condition s g re = Some b\<close> \<open>b\<close> q Suc.prems show ?thesis by simp
        next
          case False
          obtain task s1 where pop: "ReadyQueue_pop lib q s = (task, s1)"
            by (cases "ReadyQueue_pop lib q s")
          obtain o2 s2 where t: "thread_main_task lib re task s1 = (o2, s2)"
            by (cases "thread_main_task lib re task s1")
          have e1: "extends s s1" using extends_pop[of s lib q] pop by simp
          have e2: "extends s1 s2" using extends_thread_main_task[of s1 lib re task] t by simp
          have e: "extends s s2" by (rule extends_trans[OF e1 e2])
          from Suc.prems \<open>loop_condition s g re = Some b\<close> \<open>b\<close> q False pop t
          have "(case o2 of Returned Continue \<Rightarrow> thread_main_loop fuel lib g re s2
                 | Returned Break \<Rightarrow> Some (Returned (), s2)
                 | Raised e \<Rightarrow> Some (Raised e, s2)
                 | Blocked \<Rightarrow> Some (Blocked, s2)
                 | Undefined \<Rightarrow> Some (Undefined, s2)) = Some (out, s')"
            by simp
          then show ?thesis
            using e Suc.IH[of s2]
            by (auto split: outcome.splits loop_control.splits intro: extends_trans)
        qed
      qed
    qed
  qed
qed

subsection \<open>The store of graph tasks, and \<open>finish_task\<close>\<close>

lemma map_of_put_graph_task:
  "map_of (graph_tasks (put_graph_task r gt s)) r' =
     (if r' = r then Some gt else map_of (graph_tasks s) r')"
  by (simp add: put_graph_task_def update_conv')

lemma graph_tasks_set_heap [simp]: "graph_tasks (set_heap q h s) = graph_tasks s"
  by (simp add: set_heap_def)

lemma graph_tasks_log_event [simp]: "graph_tasks (log_event ev s) = graph_tasks s"
  by (simp add: log_event_def)

lemma trace_set_heap [simp]: "trace (set_heap q h s) = trace s"
  by (simp add: set_heap_def)

lemma trace_put_graph_task [simp]: "trace (put_graph_task r gt s) = trace s"
  by (simp add: put_graph_task_def)

lemma trace_log_event [simp]: "trace (log_event ev s) = trace s @ [ev]"
  by (simp add: log_event_def)

lemma push_increments:
  assumes "ReadyQueue_push q item True s = Inr s'" and "base item = Some r"
    and "map_of (graph_tasks s) r = Some gt"
  shows "graph_tasks s' = AList.update r (gt\<lparr>outstanding_tasks := outstanding_tasks gt + 1\<rparr>) (graph_tasks s)
         \<and> trace s' = trace s @ [Pushed (Some r) (fn item)]"
  using assms
  by (auto simp: ReadyQueue_push_def lock_def Let_def put_graph_task_def)

lemma push_succeeds:
  assumes "base item = Some r" and "map_of (graph_tasks s) r = Some gt"
  shows "\<exists>s'. ReadyQueue_push q item True s = Inr s'"
  using assms by (simp add: ReadyQueue_push_def lock_def Let_def)

lemma completed_mark: "completed (future_result (mark_graph_task_completed lib s gt))"
  by (simp add: mark_graph_task_completed_def completed_def split: sum.splits)

lemma mark_fields [simp]:
  "has_error (mark_graph_task_completed lib s gt) = has_error gt"
  "exit_on_error (mark_graph_task_completed lib s gt) = exit_on_error gt"
  "outstanding_tasks (mark_graph_task_completed lib s gt) = outstanding_tasks gt"
  "owner (mark_graph_task_completed lib s gt) = owner gt"
  "dependencies (mark_graph_task_completed lib s gt) = dependencies gt"
  "cpu_ready_queue (mark_graph_task_completed lib s gt) = cpu_ready_queue gt"
  by (simp_all add: mark_graph_task_completed_def split: sum.splits)

text \<open>What \<open>finish_task\<close> leaves in the store and in the log.\<close>

lemma finish_task_result:
  fixes lib :: env and s :: state
  assumes gt0: "map_of (graph_tasks s) r = Some gt0"
  defines "gt1 \<equiv> gt0\<lparr>outstanding_tasks := outstanding_tasks gt0 - 1\<rparr>"
  defines "gt2 \<equiv> (if graph_task_completed gt1 then mark_graph_task_completed lib s gt1 else gt1)"
  shows "\<exists>out s'. finish_task lib r s = (out, s') \<and>
           ((map_of (graph_tasks s') r = Some gt2 \<and> trace s' = trace s) \<or>
            (graph_task_completed gt1 \<and> owner gt2 \<noteq> worker_device s \<and> out = Returned Continue \<and>
             map_of (graph_tasks s') r = Some (gt2\<lparr>outstanding_tasks := outstanding_tasks gt2 + 1\<rparr>) \<and>
             trace s' = trace s @ [Pushed (Some r) None])) \<and>
           (graph_task_completed gt1 \<and> worker_device s = CPU_DEVICE \<longrightarrow>
              out = Returned Break \<and> s' = put_graph_task r gt2 s) \<and>
           (\<not> graph_task_completed gt1 \<longrightarrow> out = Returned Continue \<and> s' = put_graph_task r gt2 s)"
proof -
  define s1 where "s1 = put_graph_task r gt2 s"
  define item where "item = \<lparr>base = Some r, fn = None, inputs = [], isShutdownTask = False\<rparr>"
  define wake where "wake = (case ready_queue_by_index s1 gt2 (owner gt2) of
           Inl e \<Rightarrow> (Raised e, s1)
         | Inr q \<Rightarrow>
             (case ReadyQueue_push q item True s1 of
                Inl e \<Rightarrow> (Raised e, s1)
              | Inr s2 \<Rightarrow> (Returned Continue, s2)))"
  have fin: "finish_task lib r s =
     (if graph_task_completed gt1 \<and> worker_device s = CPU_DEVICE then (Returned Break, s1)
      else if owner gt2 \<noteq> worker_device s \<and> graph_task_completed gt1 then wake
      else (Returned Continue, s1))"
    unfolding finish_task_def Let_def gt1_def gt2_def s1_def wake_def item_def by (simp add: gt0)
  have s1: "map_of (graph_tasks s1) r = Some gt2" "trace s1 = trace s"
    by (simp_all add: s1_def map_of_put_graph_task)
  have w: "\<exists>out s'. wake = (out, s') \<and>
           ((map_of (graph_tasks s') r = Some gt2 \<and> trace s' = trace s) \<or>
            (out = Returned Continue \<and>
             map_of (graph_tasks s') r = Some (gt2\<lparr>outstanding_tasks := outstanding_tasks gt2 + 1\<rparr>) \<and>
             trace s' = trace s @ [Pushed (Some r) None]))"
  proof (cases "ready_queue_by_index s1 gt2 (owner gt2)")
    case (Inl e)
    then show ?thesis using s1 by (simp add: wake_def)
  next
    case (Inr q)
    from push_succeeds[of item r s1 gt2 q] s1 obtain s2 where p: "ReadyQueue_push q item True s1 = Inr s2"
      by (auto simp: item_def)
    from push_increments[OF p _ s1(1)] s1(2)
    have "map_of (graph_tasks s2) r = Some (gt2\<lparr>outstanding_tasks := outstanding_tasks gt2 + 1\<rparr>)"
      "trace s2 = trace s @ [Pushed (Some r) None]"
      by (simp_all add: item_def update_conv')
    with Inr p show ?thesis by (simp add: wake_def)
  qed
  show ?thesis unfolding fin using s1 w by (auto simp: s1_def)
qed


subsection \<open>Tasks of a graph task with an error\<close>

lemma run_task_skips:
  "has_error gt \<Longrightarrow> run_task lib r gt task s = (Returned (), s)"
  by (simp add: run_task_def split: option.splits)

lemma thread_main_task_skips:
  assumes "lock s (base task) = Some (r, gt)" "has_error gt" "\<not> isShutdownTask task"
  shows "thread_main_task lib re task s = finish_task lib r s"
  using assms by (simp add: thread_main_task_def run_task_skips)

lemma lock_Some:
  "lock s (Some r) = Some (r', gt) \<longleftrightarrow> r' = r \<and> map_of (graph_tasks s) r = Some gt"
  by (auto simp: lock_def split: option.splits)

lemma heap_of_put_graph_task [simp]: "heap_of (put_graph_task r gt s) q = heap_of s q"
  by (simp add: heap_of_def put_graph_task_def)

lemma put_graph_task_fields [simp]:
  "worker_device (put_graph_task r gt s) = worker_device s"
  "local_ready_queue (put_graph_task r gt s) = local_ready_queue s"
  by (simp_all add: put_graph_task_def)

lemma set_heap_fields [simp]:
  "worker_device (set_heap q h s) = worker_device s"
  "local_ready_queue (set_heap q h s) = local_ready_queue s"
  by (simp_all add: set_heap_def)

lemma heap_of_set_heap':
  "heap_of (set_heap q h s) q' = (if q' = q then h else heap_of s q')"
  by (simp add: heap_of_def set_heap_def update_conv')

lemma pop_result:
  assumes "heap_of s q \<noteq> []"
  shows "\<exists>k. k < length (heap_of s q) \<and>
           ReadyQueue_pop lib q s =
             (heap_of s q ! k, set_heap q (take k (heap_of s q) @ drop (Suc k) (heap_of s q)) s)"
proof -
  let ?h = "heap_of s q"
  let ?k = "min (heap_top lib (getReentrantDepth s) ?h) (length ?h - 1)"
  have "?k < length ?h" using assms by (cases ?h) auto
  moreover have "ReadyQueue_pop lib q s = (?h ! ?k, set_heap q (take ?k ?h @ drop (Suc ?k) ?h) s)"
    by (simp add: ReadyQueue_pop_def Let_def)
  ultimately show ?thesis by blast
qed

subsection \<open>Thread-local state across \<open>execute\<close>\<close>

lemma new_queues_only_queues:
  "\<exists>rq. snd (new_queues n s) = s\<lparr>ready_queues := rq\<rparr>"
proof (induction n arbitrary: s)
  case 0
  have "s = s\<lparr>ready_queues := ready_queues s\<rparr>" by simp
  then show ?case by (metis new_queues.simps(1) snd_conv)
next
  case (Suc n)
  let ?s1 = "s\<lparr>ready_queues := AList.update (fresh_ref (ready_queues s)) [] (ready_queues s)\<rparr>"
  from Suc.IH[of ?s1] obtain rq where "snd (new_queues n ?s1) = ?s1\<lparr>ready_queues := rq\<rparr>" by blast
  then have "snd (new_queues (Suc n) s) = s\<lparr>ready_queues := rq\<rparr>"
    by (auto simp: make_ReadyQueue_def Let_def split: prod.splits)
  then show ?case by blast
qed

lemma call_once_only_queues:
  "\<exists>rq dq b. call_once_start_device_threads lib s =
      s\<lparr>ready_queues := rq, device_ready_queues := dq, device_threads_started := b\<rparr>"
proof (cases "device_threads_started s")
  case True
  have "s = s\<lparr>ready_queues := ready_queues s, device_ready_queues := device_ready_queues s,
               device_threads_started := device_threads_started s\<rparr>" by simp
  with True show ?thesis unfolding call_once_start_device_threads_def by (metis (full_types))
next
  case False
  obtain qs s1 where n: "new_queues (device_count lib) s = (qs, s1)"
    by (cases "new_queues (device_count lib) s")
  from new_queues_only_queues[of "device_count lib" s] n obtain rq where "s1 = s\<lparr>ready_queues := rq\<rparr>"
    by auto
  with False n have "call_once_start_device_threads lib s =
      s\<lparr>ready_queues := rq, device_ready_queues := qs, device_threads_started := True\<rparr>"
    by (simp add: call_once_start_device_threads_def start_device_threads_def)
  then show ?thesis by blast
qed

lemma call_once_fields [simp]:
  "worker_device (call_once_start_device_threads lib s) = worker_device s"
  "local_ready_queue (call_once_start_device_threads lib s) = local_ready_queue s"
  "current_depth (call_once_start_device_threads lib s) = current_depth s"
  "total_depth (call_once_start_device_threads lib s) = total_depth s"
  "max_recursion_depth (call_once_start_device_threads lib s) = max_recursion_depth s"
  "graph_tasks (call_once_start_device_threads lib s) = graph_tasks s"
  "graphtasks_queue (call_once_start_device_threads lib s) = graphtasks_queue s"
  "trace (call_once_start_device_threads lib s) = trace s"
  using call_once_only_queues[of lib s] by auto

lemma set_owner_fields [simp]:
  "worker_device (set_owner r d s) = worker_device s"
  "local_ready_queue (set_owner r d s) = local_ready_queue s"
  "current_depth (set_owner r d s) = current_depth s"
  "total_depth (set_owner r d s) = total_depth s"
  "max_recursion_depth (set_owner r d s) = max_recursion_depth s"
  "graphtasks_queue (set_owner r d s) = graphtasks_queue s"
  "trace (set_owner r d s) = trace s"
  by (simp_all add: set_owner_def put_graph_task_def split: option.splits)

lemma leave_execute_fields [simp]:
  "worker_device (leave_execute r out s) = worker_device s"
  "local_ready_queue (leave_execute r out s) = local_ready_queue s"
  by (simp_all add: leave_execute_def split: outcome.splits)

lemma extends_worker_device: "extends s s' \<Longrightarrow> worker_device s' = worker_device s"
  by (simp add: extends_def)

lemma execute_with_graph_task_top_level:
  assumes nd: "worker_device s0 = NO_DEVICE"
    and run: "execute_with_graph_task fuel lib r root s0 = Some (Returned v, s')"
  shows "worker_device s' = NO_DEVICE \<and> local_ready_queue s' = None"
proof -
  define s where "s = call_once_start_device_threads lib s0"
  have nds: "worker_device s = NO_DEVICE" using nd by (simp add: s_def)
  from run obtain gt where gt: "map_of (graph_tasks s) r = Some gt"
    unfolding execute_with_graph_task_def Let_def s_def[symmetric]
    by (cases "map_of (graph_tasks s) r") auto
  from run gt obtain q where q: "ready_queue s gt kCPU_device = Inr q"
    unfolding execute_with_graph_task_def Let_def s_def[symmetric]
    by (cases "ready_queue s gt kCPU_device") auto
  define item where "item = \<lparr>base = Some r, fn = Some root, inputs = [], isShutdownTask = False\<rparr>"
  from run gt q obtain s1 where p: "ReadyQueue_push q item True s = Inr s1"
    unfolding execute_with_graph_task_def Let_def s_def[symmetric] item_def
    by (cases "ReadyQueue_push q \<lparr>base = Some r, fn = Some root, inputs = [], isShutdownTask = False\<rparr> True s") auto
  have nd1: "worker_device s1 = NO_DEVICE"
    using extends_worker_device[OF extends_push[OF p]] nds by simp
  define s3 where "s3 = set_owner r (worker_device (set_device CPU_DEVICE s1)) (set_device CPU_DEVICE s1)"
  from run gt q p nd1 have tm:
    "(case thread_main fuel lib None False s3 of
        None \<Rightarrow> None
      | Some (Returned u, s4) \<Rightarrow>
          Some (wait_result r (s4\<lparr>worker_device := NO_DEVICE, local_ready_queue := None\<rparr>),
                s4\<lparr>worker_device := NO_DEVICE, local_ready_queue := None\<rparr>)
      | Some (Raised e, s4) \<Rightarrow> Some (Raised e, s4)
      | Some (Blocked, s4) \<Rightarrow> Some (Blocked, s4)
      | Some (Undefined, s4) \<Rightarrow> Some (Undefined, s4)) = Some (Returned v, s')"
    unfolding execute_with_graph_task_def Let_def s_def[symmetric] item_def[symmetric] s3_def
    by simp
  then obtain u s4 where "s' = s4\<lparr>worker_device := NO_DEVICE, local_ready_queue := None\<rparr>"
    by (auto split: option.splits prod.splits outcome.splits)
  then show ?thesis by simp
qed

lemma init_to_execute_depth:
  "init_to_execute g root outs t = Some t' \<Longrightarrow> reentrant_depth t' = reentrant_depth t"
  by (auto simp: init_to_execute_def Let_def split: option.splits)

lemma execute_setup_result:
  assumes "execute_setup lib roots seeds keep create_graph outputs s = (Returned (lib', r, root), s1)"
  shows "worker_device s1 = worker_device s \<and>
         (\<exists>gt. map_of (graph_tasks s1) r = Some gt \<and>
               reentrant_depth gt = (if worker_device s = NO_DEVICE then 0 else total_depth s + 1))"
proof -
  define pre where "pre = (if worker_device s \<noteq> NO_DEVICE then Inr s
            else (case make_ReadyQueue s of (q, s') \<Rightarrow> init_local_ready_queue q s'))"
  from assms obtain s0 where s0: "pre = Inr s0"
    unfolding execute_setup_def Let_def pre_def[symmetric] by (cases pre) auto
  have keep: "worker_device s0 = worker_device s" "total_depth s0 = total_depth s"
    using s0 unfolding pre_def
    by (auto simp: make_ReadyQueue_def init_local_ready_queue_def Let_def split: if_splits)
  define gt0 where "gt0 = new_GraphTask keep create_graph
                              (if worker_device s0 = NO_DEVICE then 0 else total_depth s0 + 1)
                              (local_ready_queue s0) (exit_on_error_default lib)"
  define g where "g = nodes (with_GraphRoot lib (fresh_node (nodes lib) roots) roots seeds)"
  define gt1 where "gt1 = compute_dependencies g (fresh_node (nodes lib) roots) gt0"
  define fin where "fin = (if outputs \<noteq> [] then init_to_execute g (fresh_node (nodes lib) roots) outputs gt1
                    else Some gt1)"
  have eq: "execute_setup lib roots seeds keep create_graph outputs s =
      (case fin of
         None \<Rightarrow> (Undefined, s0)
       | Some gt2 \<Rightarrow>
           (Returned (with_GraphRoot lib (fresh_node (nodes lib) roots) roots seeds,
                      fresh_ref (graph_tasks s0), fresh_node (nodes lib) roots),
            put_graph_task (fresh_ref (graph_tasks s0)) gt2 s0))"
    unfolding execute_setup_def Let_def fin_def gt1_def g_def gt0_def
    using s0[unfolded pre_def] by simp
  note a = assms[unfolded eq]
  have "fin \<noteq> None" using a by (cases fin) simp_all
  then obtain gt2 where gt2: "fin = Some gt2" by blast
  from a[unfolded gt2] have r1: "fresh_ref (graph_tasks s0) = r"
    and r2: "put_graph_task (fresh_ref (graph_tasks s0)) gt2 s0 = s1" by clarsimp+
  note res = r2[symmetric] r1[symmetric]
  have "reentrant_depth gt1 = (if worker_device s = NO_DEVICE then 0 else total_depth s + 1)"
    using keep by (simp add: gt1_def gt0_def compute_dependencies_def new_GraphTask_def)
  with gt2 have "reentrant_depth gt2 = (if worker_device s = NO_DEVICE then 0 else total_depth s + 1)"
    unfolding fin_def by (auto split: if_splits dest: init_to_execute_depth)
  then show ?thesis using res keep by (simp add: put_graph_task_def update_conv')
qed

text \<open>
  Claim C7.  If \<open>execute\<close> is entered with \<open>worker_device == NO_DEVICE\<close> and returns, then
  afterwards \<open>worker_device\<close> is \<open>NO_DEVICE\<close> again and \<open>local_ready_queue\<close> is null; so
  the next \<open>execute\<close> on the thread is again not reentrant, and its
  \<open>init_local_ready_queue\<close> passes its assertion.
\<close>

theorem execute_restores_thread_locals:
  assumes nd: "worker_device s = NO_DEVICE"
    and run: "execute fuel lib roots ins keep create_graph outputs s = Some (Returned vars, s')"
  shows "worker_device s' = NO_DEVICE \<and> local_ready_queue s' = None \<and>
         (\<exists>t. (case make_ReadyQueue s' of (q, s'') \<Rightarrow> init_local_ready_queue q s'') = Inr t)"
proof -
  from run obtain seeds where v: "validate_outputs lib roots ins (\<lambda>msg. msg) = Inr seeds"
    unfolding execute_def by (cases "validate_outputs lib roots ins (\<lambda>msg. msg)") auto
  obtain o1 s1 where su: "execute_setup lib roots seeds keep create_graph outputs
                  (s\<lparr>final_callbacks := []\<rparr>) = (o1, s1)"
    by (cases "execute_setup lib roots seeds keep create_graph outputs (s\<lparr>final_callbacks := []\<rparr>)")
  from run v su obtain lib' r root where o1: "o1 = Returned (lib', r, root)"
    unfolding execute_def by (cases o1) auto
  from run v su o1 obtain out s2 where
    ew: "execute_with_graph_task fuel lib' r root s1 = Some (out, s2)"
    and res: "out = Returned vars" "s' = leave_execute r out s2"
    unfolding execute_def
    by (cases "execute_with_graph_task fuel lib' r root s1") auto
  have "worker_device s1 = NO_DEVICE"
    using execute_setup_result[OF su[unfolded o1]] nd by simp
  from execute_with_graph_task_top_level[OF this ew[unfolded res(1)]] res(2)
  have tl: "worker_device s' = NO_DEVICE" "local_ready_queue s' = None" by simp_all
  then have "\<exists>t. (case make_ReadyQueue s' of (q, s'') \<Rightarrow> init_local_ready_queue q s'') = Inr t"
    by (simp add: make_ReadyQueue_def init_local_ready_queue_def Let_def)
  with tl show ?thesis by simp
qed

theorem execute_restores_thread_locals_witness:
  "worker_device Engine = NO_DEVICE \<and>
   (\<exists>s'. execute 10 example_env [example_edge 1 0] [Some (example_tensor 7 [2])] False False
           [example_edge 2 0] Engine = Some (Returned [Some (example_tensor 10 [2])], s') \<and>
         worker_device s' = NO_DEVICE \<and> local_ready_queue s' = None)"
proof -
  have nd: "worker_device Engine = NO_DEVICE" by (simp add: Engine_def)
  have run: "execute 10 example_env [example_edge 1 0] [Some (example_tensor 7 [2])] False False
           [example_edge 2 0] Engine
     = Some (Returned [Some (example_tensor 10 [2])],
     Engine\<lparr>ready_queues := [(1, [])], device_threads_started := True,
       trace := [Pushed (Some 1) (Some 5), Entered_thread_main None False,
         Applied 5, Pushed (Some 1) (Some 1), Applied 1,
         Pushed (Some 1) (Some 2)]\<rparr>)"
    by code_simp
  from execute_restores_thread_locals[OF nd run] nd run show ?thesis by blast
qed

subsection \<open>Reentrant depth and the recursion limit\<close>

lemma thread_main_extends:
  assumes "thread_main fuel lib g re s = Some (out, s')"
  shows "extends (log_event (Entered_thread_main g re) s) s'"
proof -
  let ?s = "log_event (Entered_thread_main g re) s"
  define c1 where "c1 \<longleftrightarrow> re = (g = None)"
  define c2 where "c2 \<longleftrightarrow> local_ready_queue ?s = None"
  have eq: "thread_main fuel lib g re s =
     (if c1
      then Some (Raised (InternalAssert ''reentrant_thread != (graph_task == nullptr)''), ?s)
      else if c2
      then Some (Raised (InternalAssert ''local_ready_queue != nullptr''), ?s)
      else thread_main_loop fuel lib g re ?s)"
    unfolding thread_main_def Let_def c1_def c2_def ..
  show ?thesis
  proof (cases c1)
    case True
    with assms[unfolded eq] have "s' = ?s" by simp
    then show ?thesis by simp
  next
    case False
    note f = this
    show ?thesis
    proof (cases c2)
      case True
      with assms[unfolded eq] f have "s' = ?s" by simp
      then show ?thesis by simp
    next
      case False
      with assms[unfolded eq] f have "thread_main_loop fuel lib g re ?s = Some (out, s')"
        by simp
      then show ?thesis by (rule extends_thread_main_loop)
    qed
  qed
qed

lemma log_event_fields [simp]:
  "worker_device (log_event ev s) = worker_device s"
  "local_ready_queue (log_event ev s) = local_ready_queue s"
  "current_depth (log_event ev s) = current_depth s"
  "total_depth (log_event ev s) = total_depth s"
  "max_recursion_depth (log_event ev s) = max_recursion_depth s"
  "graphtasks_queue (log_event ev s) = graphtasks_queue s"
  by (simp_all add: log_event_def)

lemma no_entry_count: "no_entry evs \<Longrightarrow> count_list evs (Entered_thread_main g b) = 0"
  by (induction evs) (auto simp: no_entry_def)

lemma ready_queue_cpu:
  "cpu_ready_queue gt = Some q \<Longrightarrow> ready_queue s gt kCPU_device = Inr q"
  by (simp add: ready_queue_def kCPU_device_def)

lemma execute_with_graph_task_reentrant:
  assumes re: "worker_device s0 \<noteq> NO_DEVICE"
    and gt: "map_of (graph_tasks s0) r = Some gt" and cq: "cpu_ready_queue gt = Some q"
    and run: "execute_with_graph_task fuel lib r root s0 = Some (out, s')"
  shows "(sint (current_depth s0) < sint (max_recursion_depth s0) \<longrightarrow>
            count_list (trace s') (Entered_thread_main (Some r) True) =
              Suc (count_list (trace s0) (Entered_thread_main (Some r) True)) \<and>
            graphtasks_queue s' = graphtasks_queue s0) \<and>
         (\<not> sint (current_depth s0) < sint (max_recursion_depth s0) \<longrightarrow>
            trace s' = trace s0 @ [Pushed (Some r) (Some root)] \<and>
            graphtasks_queue s' = graphtasks_queue s0 @ [r] \<and>
            out = future_wait (future_result gt))"
proof -
  define s where "s = call_once_start_device_threads lib s0"
  define item where "item = \<lparr>base = Some r, fn = Some root, inputs = [], isShutdownTask = False\<rparr>"
  have gts: "map_of (graph_tasks s) r = Some gt" using gt by (simp add: s_def)
  have rq: "ready_queue s gt kCPU_device = Inr q" by (rule ready_queue_cpu[OF cq])
  from push_succeeds[of item r s gt q] gts obtain s1 where p: "ReadyQueue_push q item True s = Inr s1"
    by (auto simp: item_def)
  define gt1 where "gt1 = gt\<lparr>outstanding_tasks := outstanding_tasks gt + 1\<rparr>"
  from push_increments[OF p _ gts]
  have s1g: "map_of (graph_tasks s1) r = Some gt1"
    and s1t: "trace s1 = trace s0 @ [Pushed (Some r) (Some root)]"
    by (simp_all add: item_def update_conv' gt1_def s_def)
  have e1: "extends s s1" by (rule extends_push[OF p])
  then have s1f: "worker_device s1 = worker_device s0" "current_depth s1 = current_depth s0"
    "max_recursion_depth s1 = max_recursion_depth s0" "graphtasks_queue s1 = graphtasks_queue s0"
    by (simp_all add: extends_def s_def)
  define s2 where "s2 = set_owner r (worker_device s1) s1"
  define gt2 where "gt2 = gt1\<lparr>owner := worker_device s1\<rparr>"
  have s2g: "map_of (graph_tasks s2) r = Some gt2"
    using s1g by (simp add: s2_def set_owner_def gt2_def map_of_put_graph_task)
  have s2f: "trace s2 = trace s1" "graphtasks_queue s2 = graphtasks_queue s1"
    "current_depth s2 = current_depth s1" "max_recursion_depth s2 = max_recursion_depth s1"
    by (simp_all add: s2_def)
  define s3 where "s3 = s2\<lparr>total_depth := total_depth s2 + 1, current_depth := current_depth s2 + 1\<rparr>"
  have unfold: "execute_with_graph_task fuel lib r root s0 =
      (if sint (max_recursion_depth s2) \<le> sint (current_depth s2) then
         Some (wait_result r (add_thread_pool_task r s2), add_thread_pool_task r s2)
       else
         (case thread_main fuel lib (Some r) True s3 of
            None \<Rightarrow> None
          | Some (Returned u, s4) \<Rightarrow>
              (let s5 = s4\<lparr>current_depth := current_depth s4 - 1, total_depth := total_depth s4 - 1\<rparr>
               in case map_of (graph_tasks s5) r of
                    None \<Rightarrow> Some (Undefined, s5)
                  | Some gt \<Rightarrow>
                      if \<not> completed (future_result gt)
                      then Some (Raised (InternalAssert ''graph_task->future_result_->completed()''), s5)
                      else Some (wait_result r s5, s5))
          | Some (Raised e, s4) \<Rightarrow> Some (Raised e, s4)
          | Some (Blocked, s4) \<Rightarrow> Some (Blocked, s4)
          | Some (Undefined, s4) \<Rightarrow> Some (Undefined, s4)))"
    unfolding execute_with_graph_task_def Let_def s_def[symmetric] item_def[symmetric]
      s3_def s2_def
    using gts rq p re s1f(1) by simp
  show ?thesis
  proof (cases "sint (current_depth s0) < sint (max_recursion_depth s0)")
    case False
    then have c: "sint (max_recursion_depth s2) \<le> sint (current_depth s2)"
      using s1f s2f by simp
    from run[unfolded unfold] c have res: "out = wait_result r (add_thread_pool_task r s2)"
      "add_thread_pool_task r s2 = s'" by clarsimp+
    have "wait_result r (add_thread_pool_task r s2) = future_wait (future_result gt)"
      using s2g by (simp add: wait_result_def add_thread_pool_task_def gt2_def gt1_def)
    moreover have "trace s' = trace s0 @ [Pushed (Some r) (Some root)]"
      using res(2) s2f s1t by (auto simp: add_thread_pool_task_def)
    moreover have "graphtasks_queue s' = graphtasks_queue s0 @ [r]"
      using res(2) s2f s1f by (auto simp: add_thread_pool_task_def)
    ultimately show ?thesis using False res(1) by simp
  next
    case True
    then have c: "\<not> sint (max_recursion_depth s2) \<le> sint (current_depth s2)"
      using s1f s2f by simp
    from run[unfolded unfold] c obtain o4 s4 where tm: "thread_main fuel lib (Some r) True s3 = Some (o4, s4)"
      by (cases "thread_main fuel lib (Some r) True s3") auto
    have e: "extends (log_event (Entered_thread_main (Some r) True) s3) s4"
      by (rule thread_main_extends[OF tm])
    then obtain evs where evs: "trace s4 = trace s3 @ [Entered_thread_main (Some r) True] @ evs"
      "no_entry evs" and q4: "graphtasks_queue s4 = graphtasks_queue s3"
      by (auto simp: extends_def)
    have same: "trace s' = trace s4 \<and> graphtasks_queue s' = graphtasks_queue s4"
      using run[unfolded unfold] c tm
      by (cases o4) (auto simp: Let_def split: option.splits if_splits)
    have "trace s3 = trace s0 @ [Pushed (Some r) (Some root)]"
      "graphtasks_queue s3 = graphtasks_queue s0"
      using s1t s2f s1f by (simp_all add: s3_def)
    with evs q4 same have "count_list (trace s') (Entered_thread_main (Some r) True) =
              Suc (count_list (trace s0) (Entered_thread_main (Some r) True))"
      "graphtasks_queue s' = graphtasks_queue s0"
      by (simp_all add: no_entry_count)
    with True show ?thesis by simp
  qed
qed

text \<open>
  Claim C5.  The graph task that \<open>execute\<close> builds has \<open>reentrant_depth_ = 0\<close> when the
  thread's \<open>worker_device\<close> is \<open>NO_DEVICE\<close> and \<open>total_depth + 1\<close> otherwise.  The engine's
  \<open>max_recursion_depth_\<close> is 100.  In a reentrant call (the graph task has its CPU
  queue), \<open>execute_with_graph_task\<close> enters \<open>thread_main\<close> for the graph task, once, and
  leaves the pool's queue alone if \<open>current_depth < max_recursion_depth_\<close>; otherwise
  it does not enter \<open>thread_main\<close>, appends the graph task to the pool's queue and
  ends in the \<open>wait\<close> on the future, which blocks while the future is pending.
\<close>

theorem reentrant_depth_and_recursion_limit:
  "(\<forall>lib' r root s'.
      execute_setup lib roots seeds keep create_graph outputs s = (Returned (lib', r, root), s') \<longrightarrow>
      (\<exists>gt. map_of (graph_tasks s') r = Some gt \<and>
            reentrant_depth gt = (if worker_device s = NO_DEVICE then 0 else total_depth s + 1))) \<and>
   max_recursion_depth Engine = 100 \<and> sint (max_recursion_depth Engine) = 100 \<and>
   (\<forall>r root gt q out s'.
      worker_device s \<noteq> NO_DEVICE \<and> map_of (graph_tasks s) r = Some gt \<and>
      cpu_ready_queue gt = Some q \<and>
      execute_with_graph_task fuel lib r root s = Some (out, s') \<longrightarrow>
      (sint (current_depth s) < sint (max_recursion_depth s) \<longrightarrow>
         count_list (trace s') (Entered_thread_main (Some r) True) =
           Suc (count_list (trace s) (Entered_thread_main (Some r) True)) \<and>
         graphtasks_queue s' = graphtasks_queue s) \<and>
      (\<not> sint (current_depth s) < sint (max_recursion_depth s) \<longrightarrow>
         trace s' = trace s @ [Pushed (Some r) (Some root)] \<and>
         graphtasks_queue s' = graphtasks_queue s @ [r] \<and>
         out = future_wait (future_result gt) \<and>
         (future_result gt = Pending \<longrightarrow> out = Blocked)))"
proof -
  have a: "\<exists>gt. map_of (graph_tasks s') r = Some gt \<and>
            reentrant_depth gt = (if worker_device s = NO_DEVICE then 0 else total_depth s + 1)"
    if "execute_setup lib roots seeds keep create_graph outputs s = (Returned (lib', r, root), s')"
    for lib' r root s'
    using execute_setup_result[OF that] by simp
  have b: "max_recursion_depth Engine = 100" "sint (max_recursion_depth Engine) = 100"
    by (simp_all add: Engine_def)
  have c: "(sint (current_depth s) < sint (max_recursion_depth s) \<longrightarrow>
         count_list (trace s') (Entered_thread_main (Some r) True) =
           Suc (count_list (trace s) (Entered_thread_main (Some r) True)) \<and>
         graphtasks_queue s' = graphtasks_queue s) \<and>
      (\<not> sint (current_depth s) < sint (max_recursion_depth s) \<longrightarrow>
         trace s' = trace s @ [Pushed (Some r) (Some root)] \<and>
         graphtasks_queue s' = graphtasks_queue s @ [r] \<and>
         out = future_wait (future_result gt) \<and>
         (future_result gt = Pending \<longrightarrow> out = Blocked))"
    if "worker_device s \<noteq> NO_DEVICE \<and> map_of (graph_tasks s) r = Some gt \<and>
      cpu_ready_queue gt = Some q \<and>
      execute_with_graph_task fuel lib r root s = Some (out, s')" for r root gt q out s'
  proof -
    from that have h: "worker_device s \<noteq> NO_DEVICE" "map_of (graph_tasks s) r = Some gt"
      "cpu_ready_queue gt = Some q" "execute_with_graph_task fuel lib r root s = Some (out, s')"
      by simp_all
    from execute_with_graph_task_reentrant[OF h] show ?thesis
      by (auto simp: future_wait_def)
  qed
  show ?thesis using a b c by blast
qed


theorem reentrant_depth_and_recursion_limit_witness:
  "max_recursion_depth Engine = 100 \<and>
   (\<exists>lib' r root s' gt.
      execute_setup example_env [example_edge 1 0] [Some (example_tensor 7 [2])] False False []
        (reentrant_engine 0) = (Returned (lib', r, root), s') \<and>
      map_of (graph_tasks s') r = Some gt \<and> reentrant_depth gt = 5) \<and>
   (\<exists>s'. execute_with_graph_task 10 rooted_env 1 5 (reentrant_engine 100) = Some (Blocked, s') \<and>
         graphtasks_queue s' = [1] \<and> trace s' = [Pushed (Some 1) (Some 5)]) \<and>
   (\<exists>out s'. execute_with_graph_task 10 rooted_env 1 5 (reentrant_engine 99) = Some (out, s') \<and>
         graphtasks_queue s' = [] \<and>
         count_list (trace s') (Entered_thread_main (Some 1) True) = 1)"
proof -
  let ?gt = "compute_dependencies (nodes rooted_env) 5 (new_GraphTask False False 5 (Some 0) False)"
  note th0 = reentrant_depth_and_recursion_limit
    [of example_env "[example_edge 1 0]" "[Some (example_tensor 7 [2])]" False False "[]"
        "reentrant_engine 0" 10]
  note th100 = reentrant_depth_and_recursion_limit
    [of rooted_env "[]" "[]" False False "[]" "reentrant_engine 100" 10]
  note th99 = reentrant_depth_and_recursion_limit
    [of rooted_env "[]" "[]" False False "[]" "reentrant_engine 99" 10]
  have a: "max_recursion_depth Engine = 100" using th0 by blast
  have "case fst (execute_setup example_env [example_edge 1 0] [Some (example_tensor 7 [2])]
                    False False [] (reentrant_engine 0)) of Returned x \<Rightarrow> True | _ \<Rightarrow> False"
    by code_simp
  then obtain lib' r root s' where
    su: "execute_setup example_env [example_edge 1 0] [Some (example_tensor 7 [2])] False False []
        (reentrant_engine 0) = (Returned (lib', r, root), s')"
    by (cases "execute_setup example_env [example_edge 1 0] [Some (example_tensor 7 [2])]
                    False False [] (reentrant_engine 0)")
       (auto split: outcome.splits)
  have wd: "worker_device (reentrant_engine d) \<noteq> NO_DEVICE" "total_depth (reentrant_engine d) = 4"
    "map_of (graph_tasks (reentrant_engine d)) 1 = Some ?gt"
    "max_recursion_depth (reentrant_engine d) = 100" "current_depth (reentrant_engine d) = d"
    "graphtasks_queue (reentrant_engine d) = []" "trace (reentrant_engine d) = []" for d
    by (simp_all add: reentrant_engine_def Engine_def CPU_DEVICE_def NO_DEVICE_def)
  have gtf: "cpu_ready_queue ?gt = Some 0" "future_result ?gt = Pending"
    by (simp_all add: compute_dependencies_def new_GraphTask_def)
  from th0[THEN conjunct1, rule_format, OF su] wd
  have b: "\<exists>gt. map_of (graph_tasks s') r = Some gt \<and> reentrant_depth gt = 5"
    by simp
  have "execute_with_graph_task 10 rooted_env 1 5 (reentrant_engine 100) \<noteq> None"
    by code_simp
  then obtain o1 s1 where r100: "execute_with_graph_task 10 rooted_env 1 5 (reentrant_engine 100) = Some (o1, s1)"
    by auto
  have pre100: "worker_device (reentrant_engine 100) \<noteq> NO_DEVICE \<and>
      map_of (graph_tasks (reentrant_engine 100)) 1 = Some ?gt \<and> cpu_ready_queue ?gt = Some 0 \<and>
      execute_with_graph_task 10 rooted_env 1 5 (reentrant_engine 100) = Some (o1, s1)"
    using wd gtf r100 by simp
  from th100[THEN conjunct2, THEN conjunct2, THEN conjunct2, rule_format, OF pre100] wd gtf
  have c: "o1 = Blocked \<and> graphtasks_queue s1 = [1] \<and> trace s1 = [Pushed (Some 1) (Some 5)]"
    by (simp add: future_wait_def)
  have "execute_with_graph_task 10 rooted_env 1 5 (reentrant_engine 99) \<noteq> None"
    by code_simp
  then obtain o2 s2 where r99: "execute_with_graph_task 10 rooted_env 1 5 (reentrant_engine 99) = Some (o2, s2)"
    by auto
  have pre99: "worker_device (reentrant_engine 99) \<noteq> NO_DEVICE \<and>
      map_of (graph_tasks (reentrant_engine 99)) 1 = Some ?gt \<and> cpu_ready_queue ?gt = Some 0 \<and>
      execute_with_graph_task 10 rooted_env 1 5 (reentrant_engine 99) = Some (o2, s2)"
    using wd gtf r99 by simp
  from th99[THEN conjunct2, THEN conjunct2, THEN conjunct2, rule_format, OF pre99] wd
  have d: "graphtasks_queue s2 = [] \<and> count_list (trace s2) (Entered_thread_main (Some 1) True) = 1"
    by simp
  show ?thesis using a b c d su r100 r99 by blast
qed

subsection \<open>What \<open>evaluate_function\<close> leaves of the error latch\<close>

lemma latch_kept_refl [simp]: "latch_kept s s"
  by (simp add: latch_kept_def)

lemma latch_kept_trans: "latch_kept s s' \<Longrightarrow> latch_kept s' s'' \<Longrightarrow> latch_kept s s''"
  unfolding latch_kept_def by (metis (no_types, lifting))

lemma latch_kept_same: "graph_tasks s' = graph_tasks s \<Longrightarrow> latch_kept s s'"
  by (simp add: latch_kept_def)

lemma latch_kept_put:
  assumes "\<And>gt. map_of (graph_tasks s) r = Some gt \<Longrightarrow>
             has_error gt' = has_error gt \<and> future_result gt' = future_result gt \<and>
             exit_on_error gt' = exit_on_error gt"
  shows "latch_kept s (put_graph_task r gt' s)"
  using assms by (simp add: latch_kept_def map_of_put_graph_task)

lemma latch_kept_erase_not_ready: "latch_kept s (erase_not_ready r n s)"
  by (auto simp: erase_not_ready_def split: option.splits intro!: latch_kept_put)

lemma latch_kept_push: "ReadyQueue_push q item inc s = Inr s' \<Longrightarrow> latch_kept s s'"
proof -
  assume a: "ReadyQueue_push q item inc s = Inr s'"
  show ?thesis
  proof (cases inc)
    case False
    with a show ?thesis by (auto simp: ReadyQueue_push_def intro: latch_kept_same)
  next
    case True
    with a obtain r gt where l: "lock s (base item) = Some (r, gt)"
      by (cases "lock s (base item)") (auto simp: ReadyQueue_push_def)
    define s1 where "s1 = put_graph_task r (gt\<lparr>outstanding_tasks := outstanding_tasks gt + 1\<rparr>) s"
    from a True l have s': "s' = log_event (Pushed (base item) (fn item))
        (set_heap q (heap_of s1 q @ [item]) s1)"
      by (simp add: ReadyQueue_push_def Let_def s1_def)
    from l have "map_of (graph_tasks s) r = Some gt"
      by (auto simp: lock_def split: option.splits)
    then have "latch_kept s s1" unfolding s1_def by (intro latch_kept_put) simp
    moreover have "latch_kept s1 s'" unfolding s' by (rule latch_kept_same) simp
    ultimately show ?thesis by (rule latch_kept_trans)
  qed
qed

lemma latch_kept_enqueue_ready: "latch_kept s (snd (enqueue_ready lib r n buf s))"
  by (simp add: enqueue_ready_def latch_kept_push split: option.splits sum.splits)

lemma latch_kept_route_output: "latch_kept s (snd (route_output lib r func i output s))"
proof (cases "map_of (graph_tasks s) r")
  case None
  then show ?thesis by (simp add: route_output_def Let_def split: option.splits)
next
  case (Some gt0)
  have p: "latch_kept s (put_graph_task r gt s)"
    if "has_error gt = has_error gt0" "future_result gt = future_result gt0"
       "exit_on_error gt = exit_on_error gt0" for gt
    using Some that by (intro latch_kept_put) simp
  have e: "latch_kept s (snd (enqueue_ready lib r n buf (put_graph_task r gt s)))"
    if "has_error gt = has_error gt0" "future_result gt = future_result gt0"
       "exit_on_error gt = exit_on_error gt0" for n buf gt
    by (rule latch_kept_trans[OF p[OF that] latch_kept_enqueue_ready])
  have e': "latch_kept s (snd (case enqueue_ready lib r n buf (put_graph_task r gt s) of
                         (Returned u, s') \<Rightarrow> (Returned (), erase_not_ready r n s')
                       | other \<Rightarrow> other))"
    if "has_error gt = has_error gt0" "future_result gt = future_result gt0"
       "exit_on_error gt = exit_on_error gt0" for n buf gt
    using e[OF that, of n buf]
    by (auto split: prod.splits outcome.splits intro: latch_kept_trans[OF _ latch_kept_erase_not_ready])
  show ?thesis
    unfolding route_output_def Let_def
    by (simp split: option.splits add: Some p e e')
qed

lemma latch_kept_route_loop: "latch_kept s (snd (route_loop lib r func outputs idxs s))"
proof (induction idxs arbitrary: s)
  case Nil
  then show ?case by simp
next
  case (Cons i idxs)
  obtain out s1 where r: "route_output lib r func i (outputs ! i) s = (out, s1)"
    by (cases "route_output lib r func i (outputs ! i) s")
  have e1: "latch_kept s s1" using latch_kept_route_output[of s lib r func i "outputs ! i"] r by simp
  show ?case
  proof (cases out)
    case (Returned u)
    with r e1 Cons.IH[of s1] show ?thesis by (auto intro: latch_kept_trans)
  qed (use r e1 in auto)
qed

lemma latch_kept_call_function: "latch_kept s (snd (call_function lib gt func ins s))"
  unfolding call_function_def Let_def
  by (simp split: sum.splits add: latch_kept_same)

lemma latch_kept_run_function: "latch_kept s (snd (run_function lib r func ins s))"
proof (cases "map_of (graph_tasks s) r")
  case None
  then show ?thesis by (simp add: run_function_def)
next
  case (Some gt)
  obtain out s1 where c: "call_function lib gt func ins s = (out, s1)"
    by (cases "call_function lib gt func ins s")
  have e1: "latch_kept s s1" using latch_kept_call_function[of s lib gt func ins] c by simp
  have "graph_tasks s1 = graph_tasks s"
    using c unfolding call_function_def Let_def by (auto split: sum.splits)
  with Some have g1: "map_of (graph_tasks s1) r = Some gt" by simp
  have e2: "latch_kept s (put_graph_task r (gt\<lparr>leaf_streams := ls\<rparr>) s1)" for ls
    by (rule latch_kept_trans[OF e1]) (use g1 in \<open>auto intro!: latch_kept_put\<close>)
  have e3: "latch_kept s (snd (route_loop lib r func outs idxs s1))" for outs idxs
    by (rule latch_kept_trans[OF e1 latch_kept_route_loop])
  show ?thesis
    using Some c e1 e2 e3
    by (cases out) (auto simp: run_function_def split: option.splits)
qed

lemma latch_kept_evaluate_function: "latch_kept s (snd (evaluate_function lib r func ins s))"
proof (cases "map_of (graph_tasks s) r")
  case None
  then show ?thesis by (simp add: evaluate_function_def)
next
  case (Some gt)
  have p: "latch_kept s (put_graph_task r (gt\<lparr>captured_vars := cv\<rparr>) s)" for cv
    using Some by (intro latch_kept_put) simp
  have e: "latch_kept s (snd (run_function lib r func ins (put_graph_task r (gt\<lparr>captured_vars := cv\<rparr>) s)))" for cv
    by (rule latch_kept_trans[OF p latch_kept_run_function])
  show ?thesis
    unfolding evaluate_function_def Let_def
    by (simp split: option.splits add: Some p e latch_kept_run_function)
qed

subsection \<open>The error latch\<close>

lemma mark_completed_id:
  "completed (future_result gt) \<Longrightarrow> mark_graph_task_completed lib s gt = gt"
  by (simp add: mark_graph_task_completed_def)

lemma set_exception_latches:
  assumes "\<not> has_error gt"
  shows "has_error (fst (set_exception gt e)) \<and>
         exit_on_error (fst (set_exception gt e)) = exit_on_error gt \<and>
         completed (future_result (fst (set_exception gt e))) \<and>
         (future_result gt = Pending \<longrightarrow> future_result (fst (set_exception gt e)) = Errored e \<and>
                                         snd (set_exception gt e) = None) \<and>
         (future_result gt \<noteq> Pending \<longrightarrow>
            future_result (fst (set_exception gt e)) = future_result gt)"
  using assms by (simp add: set_exception_def Let_def completed_def)

lemma finish_task_keeps_latch:
  assumes g: "map_of (graph_tasks s) r = Some gt" and c: "completed (future_result gt)"
  shows "\<exists>gt'. map_of (graph_tasks (snd (finish_task lib r s))) r = Some gt' \<and>
           has_error gt' = has_error gt \<and> future_result gt' = future_result gt"
proof -
  define gt1 where "gt1 = gt\<lparr>outstanding_tasks := outstanding_tasks gt - 1\<rparr>"
  define gt2 where "gt2 = (if graph_task_completed gt1 then mark_graph_task_completed lib s gt1 else gt1)"
  have c1: "completed (future_result gt1)" using c by (simp add: gt1_def)
  have "gt2 = gt1" unfolding gt2_def using mark_completed_id[OF c1] by simp
  then have k: "has_error gt2 = has_error gt" "future_result gt2 = future_result gt"
    by (simp_all add: gt1_def)
  from finish_task_result[OF g, of lib, folded gt1_def, folded gt2_def]
  obtain out s' where fin: "finish_task lib r s = (out, s')"
    and d: "map_of (graph_tasks s') r = Some gt2 \<or>
            map_of (graph_tasks s') r = Some (gt2\<lparr>outstanding_tasks := outstanding_tasks gt2 + 1\<rparr>)"
    by blast
  from d k show ?thesis unfolding fin by auto
qed

lemma throw_latches:
  assumes l: "lock s (base task) = Some (r, gt)" and ns: "\<not> isShutdownTask task"
    and f: "fn task = Some f" and ne: "\<not> has_error gt"
    and ev: "evaluate_function lib r f (inputs task) s = (Raised e, s1)"
  shows "\<exists>out s' gt'. thread_main_task lib re task s = (out, s') \<and>
           map_of (graph_tasks s') r = Some gt' \<and> has_error gt' \<and>
           (future_result gt = Pending \<longrightarrow> future_result gt' = Errored e) \<and>
           (future_result gt \<noteq> Pending \<longrightarrow> future_result gt' = future_result gt) \<and>
           (\<forall>task2. base task2 = Some r \<and> \<not> isShutdownTask task2 \<longrightarrow>
              thread_main_task lib re task2 s' = finish_task lib r s')"
proof -
  from l have g: "map_of (graph_tasks s) r = Some gt" by (auto simp: lock_def split: option.splits)
  from latch_kept_evaluate_function[of s lib r f "inputs task"] ev g
  obtain gt1 where g1: "map_of (graph_tasks s1) r = Some gt1" and ne1: "\<not> has_error gt1"
    and fu1: "future_result gt1 = future_result gt"
    using ne by (auto simp: latch_kept_def)
  define gt2 where "gt2 = fst (set_exception gt1 e)"
  define s2 where "s2 = put_graph_task r gt2 s1"
  note se = set_exception_latches[OF ne1, of e, folded gt2_def]
  have g2: "map_of (graph_tasks s2) r = Some gt2" by (simp add: s2_def map_of_put_graph_task)
  have rt: "run_task lib r gt task s =
              (case snd (set_exception gt1 e) of None \<Rightarrow> (Returned (), s2) | Some a \<Rightarrow> (Raised a, s2))"
    using f ne ev g1
    by (simp add: run_task_def thread_on_exception_def s2_def gt2_def split: prod.splits option.splits)
  have skip: "thread_main_task lib re task2 s' = finish_task lib r s'"
    if "map_of (graph_tasks s') r = Some gt'" "has_error gt'"
       "base task2 = Some r \<and> \<not> isShutdownTask task2" for s' gt' task2
    using that by (intro thread_main_task_skips[of _ _ _ gt']) (simp_all add: lock_Some)
  show ?thesis
  proof (cases "snd (set_exception gt1 e)")
    case (Some a)
    with rt l ns have "thread_main_task lib re task s = (Raised a, s2)"
      by (simp add: thread_main_task_def)
    moreover from Some se have "future_result gt \<noteq> Pending" using fu1 by auto
    ultimately show ?thesis using g2 se fu1 skip[OF g2] by auto
  next
    case None
    with rt l ns have tm: "thread_main_task lib re task s = finish_task lib r s2"
      by (simp add: thread_main_task_def)
    from se have c2: "completed (future_result gt2)" by simp
    from finish_task_keeps_latch[OF g2 c2, of lib]
    obtain gt3 where g3: "map_of (graph_tasks (snd (finish_task lib r s2))) r = Some gt3"
      and h3: "has_error gt3 = has_error gt2" "future_result gt3 = future_result gt2" by blast
    have "has_error gt3" using h3 se by simp
    moreover have "future_result gt = Pending \<longrightarrow> future_result gt3 = Errored e"
      using h3 se fu1 by simp
    moreover have "future_result gt \<noteq> Pending \<longrightarrow> future_result gt3 = future_result gt"
      using h3 se fu1 by simp
    ultimately show ?thesis
      using tm g3 skip[OF g3] by (cases "finish_task lib r s2") auto
  qed
qed

lemma of_nat_64_zero: "of_nat m = (0 :: 64 word) \<Longrightarrow> m < 2 ^ 64 \<Longrightarrow> m = 0"
proof -
  assume a: "of_nat m = (0 :: 64 word)" and b: "m < 2 ^ 64"
  have "unat (of_nat m :: 64 word) = m" using b by (simp add: unat_of_nat)
  with a show ?thesis by simp
qed

lemma drain_all_after_error:
  assumes "length tasks = n" and "n < 2 ^ 64"
    and "worker_device s = CPU_DEVICE" and "local_ready_queue s = Some q"
    and "heap_of s q = tasks" and "tasks \<noteq> []"
    and "\<forall>t \<in> set tasks. base t = Some r \<and> \<not> isShutdownTask t"
    and "map_of (graph_tasks s) r = Some gt" and "has_error gt" and "\<not> exit_on_error gt"
    and "outstanding_tasks gt = of_nat (length tasks)"
  shows "\<exists>s' gt'. thread_main_loop n lib None False s = Some (Returned (), s') \<and>
           map_of (graph_tasks s') r = Some gt' \<and> outstanding_tasks gt' = 0 \<and>
           heap_of s' q = [] \<and> graph_task_completed gt' \<and>
           completed (future_result gt') \<and> has_error gt' \<and> trace s' = trace s"
  using assms
proof (induction n arbitrary: s gt tasks)
  case 0
  then show ?case by simp
next
  case (Suc m)
  note prems = Suc.prems
  from prems(5,6) have ne: "heap_of s q \<noteq> []" by simp
  from pop_result[OF ne, of lib] prems(5) obtain k where k: "k < length tasks"
    and pop: "ReadyQueue_pop lib q s = (tasks ! k, set_heap q (take k tasks @ drop (Suc k) tasks) s)"
    by auto
  define task where "task = tasks ! k"
  define rest where "rest = take k tasks @ drop (Suc k) tasks"
  define s1 where "s1 = set_heap q rest s"
  have task: "base task = Some r" "\<not> isShutdownTask task"
    using prems(7) k by (auto simp: task_def)
  have rest_len: "length rest = m" using prems(1) k by (simp add: rest_def)
  have rest_set: "\<forall>t \<in> set rest. base t = Some r \<and> \<not> isShutdownTask t"
    using prems(7) by (auto simp: rest_def dest: in_set_takeD in_set_dropD)
  have s1: "map_of (graph_tasks s1) r = Some gt" "worker_device s1 = CPU_DEVICE"
    "local_ready_queue s1 = Some q" "heap_of s1 q = rest" "trace s1 = trace s"
    using prems(3,4,8) by (simp_all add: s1_def heap_of_set_heap')
  have lk: "lock s1 (base task) = Some (r, gt)"
    using task(1) s1(1) by (simp add: lock_Some)
  have tm: "thread_main_task lib False task s1 = finish_task lib r s1"
    by (rule thread_main_task_skips[OF lk prems(9) task(2)])
  define gt1 where "gt1 = gt\<lparr>outstanding_tasks := outstanding_tasks gt - 1\<rparr>"
  define gt2 where "gt2 = (if graph_task_completed gt1 then mark_graph_task_completed lib s1 gt1 else gt1)"
  have out1: "outstanding_tasks gt1 = of_nat m"
    using prems(11,1) by (simp add: gt1_def)
  have err1: "has_error gt1" "\<not> exit_on_error gt1" using prems(9,10) by (simp_all add: gt1_def)
  have m64: "m < 2 ^ 64" using prems(2) by simp
  note fr = finish_task_result[OF s1(1), of lib, folded gt1_def, folded gt2_def]
  have unfold: "thread_main_loop (Suc m) lib None False s =
      (case finish_task lib r s1 of
         (Returned Continue, s2) \<Rightarrow> thread_main_loop m lib None False s2
       | (Returned Break, s2) \<Rightarrow> Some (Returned (), s2)
       | (Raised e, s2) \<Rightarrow> Some (Raised e, s2)
       | (Blocked, s2) \<Rightarrow> Some (Blocked, s2)
       | (Undefined, s2) \<Rightarrow> Some (Undefined, s2))"
    using prems(4) ne pop tm by (simp add: loop_condition_def task_def rest_def s1_def)
  show ?case
  proof (cases "graph_task_completed gt1")
    case True
    with fr s1(2) have f: "finish_task lib r s1 = (Returned Break, put_graph_task r gt2 s1)"
      by auto
    from True err1 out1 have "of_nat m = (0 :: 64 word)" by (simp add: graph_task_completed_def)
    then have "m = 0" using m64 by (rule of_nat_64_zero)
    with rest_len have r0: "rest = []" by simp
    have "graph_task_completed gt2" using True
      by (simp add: gt2_def graph_task_completed_def)
    moreover have "completed (future_result gt2)" using True by (simp add: gt2_def completed_mark)
    moreover have "has_error gt2" using err1 by (simp add: gt2_def)
    moreover have "outstanding_tasks gt2 = 0" using out1 \<open>m = 0\<close> by (simp add: gt2_def)
    ultimately show ?thesis
      unfolding unfold f using s1(4,5) r0 by (simp add: map_of_put_graph_task)
  next
    case False
    with fr have f: "finish_task lib r s1 = (Returned Continue, put_graph_task r gt2 s1)"
      by auto
    have gt2: "gt2 = gt1" using False by (simp add: gt2_def)
    have m0: "m \<noteq> 0" using False out1 by (cases "m = 0") (auto simp: graph_task_completed_def)
    define s2 where "s2 = put_graph_task r gt1 s1"
    have "\<exists>s' gt'. thread_main_loop m lib None False s2 = Some (Returned (), s') \<and>
           map_of (graph_tasks s') r = Some gt' \<and> outstanding_tasks gt' = 0 \<and>
           heap_of s' q = [] \<and> graph_task_completed gt' \<and>
           completed (future_result gt') \<and> has_error gt' \<and> trace s' = trace s2"
    proof (rule Suc.IH[of rest s2 gt1])
      show "length rest = m" by (rule rest_len)
      show "m < 2 ^ 64" by (rule m64)
      show "worker_device s2 = CPU_DEVICE" using s1(2) by (simp add: s2_def)
      show "local_ready_queue s2 = Some q" using s1(3) by (simp add: s2_def)
      show "heap_of s2 q = rest" using s1(4) by (simp add: s2_def)
      show "rest \<noteq> []" using rest_len m0 by auto
      show "\<forall>t \<in> set rest. base t = Some r \<and> \<not> isShutdownTask t" by (rule rest_set)
      show "map_of (graph_tasks s2) r = Some gt1" by (simp add: s2_def map_of_put_graph_task)
      show "has_error gt1" by (rule err1)
      show "\<not> exit_on_error gt1" by (rule err1)
      show "outstanding_tasks gt1 = of_nat (length rest)" using out1 rest_len by simp
    qed
    then show ?thesis
      unfolding unfold f gt2 using s1(5) by (simp add: s2_def)
  qed
qed

lemma exit_on_first_pop:
  assumes "worker_device s = CPU_DEVICE" and "local_ready_queue s = Some q"
    and "heap_of s q = tasks" and "tasks \<noteq> []"
    and "\<forall>t \<in> set tasks. base t = Some r \<and> \<not> isShutdownTask t"
    and "map_of (graph_tasks s) r = Some gt" and "has_error gt" and "exit_on_error gt"
  shows "\<exists>s' gt'. thread_main_loop (Suc fuel) lib None False s = Some (Returned (), s') \<and>
           map_of (graph_tasks s') r = Some gt' \<and>
           outstanding_tasks gt' = outstanding_tasks gt - 1 \<and>
           length (heap_of s' q) = length tasks - 1 \<and> graph_task_completed gt' \<and>
           completed (future_result gt') \<and> has_error gt' \<and> trace s' = trace s"
proof -
  from assms(3,4) have ne: "heap_of s q \<noteq> []" by simp
  from pop_result[OF ne, of lib] assms(3) obtain k where k: "k < length tasks"
    and pop: "ReadyQueue_pop lib q s = (tasks ! k, set_heap q (take k tasks @ drop (Suc k) tasks) s)"
    by auto
  define task where "task = tasks ! k"
  define rest where "rest = take k tasks @ drop (Suc k) tasks"
  define s1 where "s1 = set_heap q rest s"
  have task: "base task = Some r" "\<not> isShutdownTask task"
    using assms(5) k by (auto simp: task_def)
  have rest_len: "length rest = length tasks - 1" using k by (simp add: rest_def)
  have s1: "map_of (graph_tasks s1) r = Some gt" "worker_device s1 = CPU_DEVICE"
    "local_ready_queue s1 = Some q" "heap_of s1 q = rest" "trace s1 = trace s"
    using assms(1,2,6) by (simp_all add: s1_def heap_of_set_heap')
  have lk: "lock s1 (base task) = Some (r, gt)"
    using task(1) s1(1) by (simp add: lock_Some)
  have tm: "thread_main_task lib False task s1 = finish_task lib r s1"
    by (rule thread_main_task_skips[OF lk assms(7) task(2)])
  define gt1 where "gt1 = gt\<lparr>outstanding_tasks := outstanding_tasks gt - 1\<rparr>"
  define gt2 where "gt2 = (if graph_task_completed gt1 then mark_graph_task_completed lib s1 gt1 else gt1)"
  have c1: "graph_task_completed gt1" using assms(7,8) by (simp add: gt1_def graph_task_completed_def)
  note fr = finish_task_result[OF s1(1), of lib, folded gt1_def, folded gt2_def]
  with c1 s1(2) have f: "finish_task lib r s1 = (Returned Break, put_graph_task r gt2 s1)"
    by auto
  have unfold: "thread_main_loop (Suc fuel) lib None False s =
      (case finish_task lib r s1 of
         (Returned Continue, s2) \<Rightarrow> thread_main_loop fuel lib None False s2
       | (Returned Break, s2) \<Rightarrow> Some (Returned (), s2)
       | (Raised e, s2) \<Rightarrow> Some (Raised e, s2)
       | (Blocked, s2) \<Rightarrow> Some (Blocked, s2)
       | (Undefined, s2) \<Rightarrow> Some (Undefined, s2))"
    using assms(2) ne pop tm by (simp add: loop_condition_def task_def rest_def s1_def)
  have "graph_task_completed gt2" using c1 by (simp add: gt2_def graph_task_completed_def)
  moreover have "completed (future_result gt2)" using c1 by (simp add: gt2_def completed_mark)
  moreover have "has_error gt2" using assms(7) c1 by (simp add: gt2_def gt1_def)
  moreover have "outstanding_tasks gt2 = outstanding_tasks gt - 1" using c1 by (simp add: gt2_def gt1_def)
  ultimately show ?thesis
    unfolding unfold f using s1(4,5) rest_len by (simp add: map_of_put_graph_task)
qed

text \<open>
  Claim C3.  \<open>set_exception\<close> on a graph task whose \<open>has_error_\<close> is set changes nothing.
  On one whose \<open>has_error_\<close> is clear it sets the flag, and completes a pending future
  with the error; a future that is already completed keeps what it holds.  When
  \<open>evaluate_function\<close> throws for a task of a graph task whose \<open>has_error_\<close> is clear,
  \<open>thread_main\<close> (lines 314--332) hands the exception to \<open>set_exception\<close>: after the
  task the graph task has \<open>has_error_\<close> set and its future, if it was pending, holds
  that error, and every later task of the graph task is handled by lines 323--353
  alone.  For a task popped for a graph task whose \<open>has_error_\<close> is set no function is
  applied, \<open>has_error_\<close> stays set, and \<open>outstanding_tasks_\<close> is decremented (and
  incremented again only by the wake-up task for another owner).  So on the CPU
  thread a queue that holds exactly the outstanding tasks of such a graph task is
  drained: with \<open>exit_on_error_\<close> clear \<open>thread_main\<close> pops every task, applying
  nothing, and returns with \<open>outstanding_tasks_\<close> at zero, the queue empty and the
  future completed; with \<open>exit_on_error_\<close> set the graph task is completed by the
  first pop (line 151) and \<open>thread_main\<close> returns with the other tasks in the queue.
\<close>

theorem error_latch_and_drain:
  "(has_error gt \<longrightarrow> set_exception gt e = (gt, None)) \<and>
   (\<not> has_error gt \<longrightarrow>
      has_error (fst (set_exception gt e)) \<and>
      (future_result gt = Pending \<longrightarrow>
         set_exception gt e = (gt\<lparr>has_error := True, future_result := Errored e\<rparr>, None)) \<and>
      (future_result gt \<noteq> Pending \<longrightarrow>
         future_result (fst (set_exception gt e)) = future_result gt)) \<and>
   (\<forall>r f s1. lock s (base task) = Some (r, gt) \<and> \<not> isShutdownTask task \<and> fn task = Some f \<and>
      \<not> has_error gt \<and> evaluate_function lib r f (inputs task) s = (Raised e, s1) \<longrightarrow>
      (\<exists>out s' gt'. thread_main_task lib re task s = (out, s') \<and>
           map_of (graph_tasks s') r = Some gt' \<and> has_error gt' \<and>
           (future_result gt = Pending \<longrightarrow> future_result gt' = Errored e) \<and>
           (future_result gt \<noteq> Pending \<longrightarrow> future_result gt' = future_result gt) \<and>
           (\<forall>task2. base task2 = Some r \<and> \<not> isShutdownTask task2 \<longrightarrow>
              thread_main_task lib re task2 s' = finish_task lib r s'))) \<and>
   (\<forall>r. lock s (base task) = Some (r, gt) \<and> has_error gt \<and> \<not> isShutdownTask task \<longrightarrow>
      thread_main_task lib re task s = finish_task lib r s \<and>
      (\<forall>n. Applied n \<in> set (trace (snd (thread_main_task lib re task s)))
             \<longrightarrow> Applied n \<in> set (trace s)) \<and>
      (\<exists>gt'. map_of (graph_tasks (snd (thread_main_task lib re task s))) r = Some gt' \<and>
              has_error gt' \<and>
              (outstanding_tasks gt' = outstanding_tasks gt - 1 \<or>
               (owner gt \<noteq> worker_device s \<and>
                graph_task_completed (gt\<lparr>outstanding_tasks := outstanding_tasks gt - 1\<rparr>) \<and>
                outstanding_tasks gt' = outstanding_tasks gt - 1 + 1)))) \<and>
   (\<forall>q r tasks.
      worker_device s = CPU_DEVICE \<and> local_ready_queue s = Some q \<and>
      heap_of s q = tasks \<and> tasks \<noteq> [] \<and> length tasks < 2 ^ 64 \<and>
      (\<forall>t \<in> set tasks. base t = Some r \<and> \<not> isShutdownTask t) \<and>
      map_of (graph_tasks s) r = Some gt \<and> has_error gt \<and> \<not> exit_on_error gt \<and>
      outstanding_tasks gt = of_nat (length tasks) \<longrightarrow>
      (\<exists>s' gt'. thread_main_loop (length tasks) lib None False s = Some (Returned (), s') \<and>
           map_of (graph_tasks s') r = Some gt' \<and> outstanding_tasks gt' = 0 \<and>
           heap_of s' q = [] \<and> graph_task_completed gt' \<and>
           completed (future_result gt') \<and> has_error gt' \<and> trace s' = trace s)) \<and>
   (\<forall>q r tasks fuel.
      worker_device s = CPU_DEVICE \<and> local_ready_queue s = Some q \<and>
      heap_of s q = tasks \<and> tasks \<noteq> [] \<and>
      (\<forall>t \<in> set tasks. base t = Some r \<and> \<not> isShutdownTask t) \<and>
      map_of (graph_tasks s) r = Some gt \<and> has_error gt \<and> exit_on_error gt \<longrightarrow>
      (\<exists>s' gt'. thread_main_loop (Suc fuel) lib None False s = Some (Returned (), s') \<and>
           map_of (graph_tasks s') r = Some gt' \<and>
           outstanding_tasks gt' = outstanding_tasks gt - 1 \<and>
           length (heap_of s' q) = length tasks - 1 \<and> graph_task_completed gt' \<and>
           completed (future_result gt') \<and> has_error gt' \<and> trace s' = trace s))"
proof -
  have a: "has_error gt \<longrightarrow> set_exception gt e = (gt, None)"
    by (simp add: set_exception_def)
  have b: "\<not> has_error gt \<longrightarrow>
      has_error (fst (set_exception gt e)) \<and>
      (future_result gt = Pending \<longrightarrow>
         set_exception gt e = (gt\<lparr>has_error := True, future_result := Errored e\<rparr>, None)) \<and>
      (future_result gt \<noteq> Pending \<longrightarrow>
         future_result (fst (set_exception gt e)) = future_result gt)"
    by (simp add: set_exception_def Let_def completed_def)
  have t: "\<exists>out s' gt'. thread_main_task lib re task s = (out, s') \<and>
           map_of (graph_tasks s') r = Some gt' \<and> has_error gt' \<and>
           (future_result gt = Pending \<longrightarrow> future_result gt' = Errored e) \<and>
           (future_result gt \<noteq> Pending \<longrightarrow> future_result gt' = future_result gt) \<and>
           (\<forall>task2. base task2 = Some r \<and> \<not> isShutdownTask task2 \<longrightarrow>
              thread_main_task lib re task2 s' = finish_task lib r s')"
    if "lock s (base task) = Some (r, gt) \<and> \<not> isShutdownTask task \<and> fn task = Some f \<and>
      \<not> has_error gt \<and> evaluate_function lib r f (inputs task) s = (Raised e, s1)" for r f s1
    using that throw_latches[of s task r gt f lib e s1 re] by blast
  have c: "thread_main_task lib re task s = finish_task lib r s \<and>
      (\<forall>n. Applied n \<in> set (trace (snd (thread_main_task lib re task s)))
             \<longrightarrow> Applied n \<in> set (trace s)) \<and>
      (\<exists>gt'. map_of (graph_tasks (snd (thread_main_task lib re task s))) r = Some gt' \<and>
              has_error gt' \<and>
              (outstanding_tasks gt' = outstanding_tasks gt - 1 \<or>
               (owner gt \<noteq> worker_device s \<and>
                graph_task_completed (gt\<lparr>outstanding_tasks := outstanding_tasks gt - 1\<rparr>) \<and>
                outstanding_tasks gt' = outstanding_tasks gt - 1 + 1)))"
    if h: "lock s (base task) = Some (r, gt)" "has_error gt" "\<not> isShutdownTask task" for r
  proof -
    have eq: "thread_main_task lib re task s = finish_task lib r s"
      by (rule thread_main_task_skips[OF h])
    from h(1) have g: "map_of (graph_tasks s) r = Some gt"
      by (auto simp: lock_def split: option.splits)
    from finish_task_result[OF g, of lib] h(2)
    show ?thesis unfolding eq by (auto simp: Let_def)
  qed
  have d: "\<exists>s' gt'. thread_main_loop (length tasks) lib None False s = Some (Returned (), s') \<and>
           map_of (graph_tasks s') r = Some gt' \<and> outstanding_tasks gt' = 0 \<and>
           heap_of s' q = [] \<and> graph_task_completed gt' \<and>
           completed (future_result gt') \<and> has_error gt' \<and> trace s' = trace s"
    if "worker_device s = CPU_DEVICE \<and> local_ready_queue s = Some q \<and>
      heap_of s q = tasks \<and> tasks \<noteq> [] \<and> length tasks < 2 ^ 64 \<and>
      (\<forall>t \<in> set tasks. base t = Some r \<and> \<not> isShutdownTask t) \<and>
      map_of (graph_tasks s) r = Some gt \<and> has_error gt \<and> \<not> exit_on_error gt \<and>
      outstanding_tasks gt = of_nat (length tasks)" for q r tasks
    using that drain_all_after_error[of tasks "length tasks" s q r gt lib] by blast
  have x: "\<exists>s' gt'. thread_main_loop (Suc fuel) lib None False s = Some (Returned (), s') \<and>
           map_of (graph_tasks s') r = Some gt' \<and>
           outstanding_tasks gt' = outstanding_tasks gt - 1 \<and>
           length (heap_of s' q) = length tasks - 1 \<and> graph_task_completed gt' \<and>
           completed (future_result gt') \<and> has_error gt' \<and> trace s' = trace s"
    if "worker_device s = CPU_DEVICE \<and> local_ready_queue s = Some q \<and>
      heap_of s q = tasks \<and> tasks \<noteq> [] \<and>
      (\<forall>t \<in> set tasks. base t = Some r \<and> \<not> isShutdownTask t) \<and>
      map_of (graph_tasks s) r = Some gt \<and> has_error gt \<and> exit_on_error gt" for q r tasks fuel
    using that exit_on_first_pop[of s q tasks r gt fuel lib] by blast
  show ?thesis
    apply (intro conjI allI impI)
    using a b apply blast
    using b apply blast
    using b apply blast
    using b apply blast
    using t apply blast
    using c apply blast
    using c apply blast
    using c apply blast
    using d apply blast
    using x apply blast
    done
qed


theorem error_latch_and_drain_witness:
  "set_exception example_graph_task (NodeError ''boom'') =
     (example_graph_task\<lparr>has_error := True, future_result := Errored (NodeError ''boom'')\<rparr>, None) \<and>
   set_exception errored_graph_task (NodeError ''late'') = (errored_graph_task, None) \<and>
   fst (evaluate_function failing_env 1 1 [] throwing_engine) = Raised (NodeError ''boom'') \<and>
   (\<exists>out s' gt'. thread_main_task failing_env False (example_task 1 (Some 1)) throwing_engine = (out, s') \<and>
       map_of (graph_tasks s') 1 = Some gt' \<and> has_error gt' \<and>
       future_result gt' = Errored (NodeError ''boom'') \<and>
       thread_main_task failing_env False (example_task 1 (Some 2)) s' = finish_task failing_env 1 s') \<and>
   (\<exists>s' gt'. thread_main_loop 2 example_env None False errored_engine = Some (Returned (), s') \<and>
       map_of (graph_tasks s') 1 = Some gt' \<and> outstanding_tasks gt' = 0 \<and>
       heap_of s' 0 = [] \<and> graph_task_completed gt' \<and>
       completed (future_result gt') \<and> has_error gt' \<and> trace s' = trace errored_engine) \<and>
   (\<exists>s' gt'. thread_main_loop 1 example_env None False exiting_engine = Some (Returned (), s') \<and>
       map_of (graph_tasks s') 1 = Some gt' \<and> outstanding_tasks gt' = 1 \<and>
       length (heap_of s' 0) = 1 \<and> graph_task_completed gt' \<and> has_error gt') \<and>
   map_option (\<lambda>(out, s). (out, trace s))
     (execute 10 failing_env [example_edge 1 0, example_edge 2 0, example_edge 3 0]
        [Some (example_tensor 7 [2]), Some (example_tensor 8 [2]), Some (example_tensor 9 [2])]
        False False [] Engine) =
     Some (Raised (NodeError ''boom''),
           [Pushed (Some 1) (Some 4), Entered_thread_main None False, Applied 4,
            Pushed (Some 1) (Some 1), Pushed (Some 1) (Some 2), Pushed (Some 1) (Some 3),
            Applied 1])"
proof -
  let ?s = errored_engine
  let ?x = exiting_engine
  let ?t = throwing_engine
  let ?gt3 = "example_graph_task\<lparr>outstanding_tasks := 3\<rparr>"
  let ?gtx = "errored_graph_task\<lparr>exit_on_error := True\<rparr>"
  let ?tasks = "[example_task 1 (Some 2), example_task 1 (Some 3)]"
  note th = error_latch_and_drain[of example_graph_task "NodeError ''boom''" ?s
      "example_task 1 (Some 2)" example_env False]
  note th2 = error_latch_and_drain[of errored_graph_task "NodeError ''late''" ?s
      "example_task 1 (Some 2)" example_env False]
  note th3 = error_latch_and_drain[of ?gt3 "NodeError ''boom''" ?t
      "example_task 1 (Some 1)" failing_env False]
  note th4 = error_latch_and_drain[of ?gtx "NodeError ''late''" ?x
      "example_task 1 (Some 2)" example_env False]
  have fresh: "\<not> has_error example_graph_task" "future_result example_graph_task = Pending"
    by (simp_all add: example_graph_task_def new_GraphTask_def)
  have a: "set_exception example_graph_task (NodeError ''boom'') =
     (example_graph_task\<lparr>has_error := True, future_result := Errored (NodeError ''boom'')\<rparr>, None)"
    using th fresh by blast
  have err: "has_error errored_graph_task" by (simp add: errored_graph_task_def)
  have b: "set_exception errored_graph_task (NodeError ''late'') = (errored_graph_task, None)"
    using th2 err by blast
  have ev: "fst (evaluate_function failing_env 1 1 [] throwing_engine) = Raised (NodeError ''boom'')"
    by code_simp
  then obtain s1 where ev1: "evaluate_function failing_env 1 1 [] ?t = (Raised (NodeError ''boom''), s1)"
    by (cases "evaluate_function failing_env 1 1 [] ?t") auto
  have pre3: "lock ?t (base (example_task 1 (Some 1))) = Some (1, ?gt3) \<and>
      \<not> isShutdownTask (example_task 1 (Some 1)) \<and> fn (example_task 1 (Some 1)) = Some 1 \<and>
      \<not> has_error ?gt3 \<and>
      evaluate_function failing_env 1 1 (inputs (example_task 1 (Some 1))) ?t =
        (Raised (NodeError ''boom''), s1)"
    using ev1 fresh
    by (simp add: throwing_engine_def Engine_def lock_def example_task_def)
  have pend3: "future_result ?gt3 = Pending" using fresh by simp
  from th3[THEN conjunct2, THEN conjunct2, THEN conjunct1, rule_format, OF pre3] pend3
  have t: "\<exists>out s' gt'. thread_main_task failing_env False (example_task 1 (Some 1)) ?t = (out, s') \<and>
       map_of (graph_tasks s') 1 = Some gt' \<and> has_error gt' \<and>
       future_result gt' = Errored (NodeError ''boom'') \<and>
       thread_main_task failing_env False (example_task 1 (Some 2)) s' = finish_task failing_env 1 s'"
    by (auto simp: example_task_def)
  have pre: "worker_device ?s = CPU_DEVICE \<and> local_ready_queue ?s = Some 0 \<and>
      heap_of ?s 0 = ?tasks \<and> ?tasks \<noteq> [] \<and> length ?tasks < 2 ^ 64 \<and>
      (\<forall>t \<in> set ?tasks. base t = Some 1 \<and> \<not> isShutdownTask t) \<and>
      map_of (graph_tasks ?s) 1 = Some errored_graph_task \<and> has_error errored_graph_task \<and>
      \<not> exit_on_error errored_graph_task \<and>
      outstanding_tasks errored_graph_task = of_nat (length ?tasks)"
    by (simp add: errored_engine_def Engine_def heap_of_def example_task_def errored_graph_task_def
          example_graph_task_def new_GraphTask_def CPU_DEVICE_def)
  have len: "length ?tasks = 2" by simp
  have c: "\<exists>s' gt'. thread_main_loop 2 example_env None False ?s = Some (Returned (), s') \<and>
       map_of (graph_tasks s') 1 = Some gt' \<and> outstanding_tasks gt' = 0 \<and>
       heap_of s' 0 = [] \<and> graph_task_completed gt' \<and>
       completed (future_result gt') \<and> has_error gt' \<and> trace s' = trace ?s"
    using th2[THEN conjunct2, THEN conjunct2, THEN conjunct2, THEN conjunct2, THEN conjunct1,
              rule_format, OF pre]
    unfolding len .
  have prex: "worker_device ?x = CPU_DEVICE \<and> local_ready_queue ?x = Some 0 \<and>
      heap_of ?x 0 = ?tasks \<and> ?tasks \<noteq> [] \<and>
      (\<forall>t \<in> set ?tasks. base t = Some 1 \<and> \<not> isShutdownTask t) \<and>
      map_of (graph_tasks ?x) 1 = Some ?gtx \<and> has_error ?gtx \<and> exit_on_error ?gtx"
    by (simp add: exiting_engine_def errored_engine_def Engine_def heap_of_def example_task_def
          errored_graph_task_def CPU_DEVICE_def)
  have ox: "outstanding_tasks ?gtx - 1 = 1" by (simp add: errored_graph_task_def)
  from th4[THEN conjunct2, THEN conjunct2, THEN conjunct2, THEN conjunct2, THEN conjunct2,
           rule_format, OF prex, of 0] ox
  have x: "\<exists>s' gt'. thread_main_loop 1 example_env None False ?x = Some (Returned (), s') \<and>
       map_of (graph_tasks s') 1 = Some gt' \<and> outstanding_tasks gt' = 1 \<and>
       length (heap_of s' 0) = 1 \<and> graph_task_completed gt' \<and> has_error gt'"
    by auto
  have d: "map_option (\<lambda>(out, s). (out, trace s))
     (execute 10 failing_env [example_edge 1 0, example_edge 2 0, example_edge 3 0]
        [Some (example_tensor 7 [2]), Some (example_tensor 8 [2]), Some (example_tensor 9 [2])]
        False False [] Engine) =
     Some (Raised (NodeError ''boom''),
           [Pushed (Some 1) (Some 4), Entered_thread_main None False, Applied 4,
            Pushed (Some 1) (Some 1), Pushed (Some 1) (Some 2), Pushed (Some 1) (Some 3),
            Applied 1])"
    by code_simp
  show ?thesis using a b ev t c x d by blast
qed

subsection \<open>Completion with buffers left over\<close>





















subsection \<open>The dependency counts\<close>

lemma successors_in_targets: "set (successors g n) \<subseteq> targets g"
  unfolding successors_def targets_def map_filter_def by force

lemma reachable_subset: "reachable g root \<subseteq> insert root (targets g)"
proof
  fix n assume "n \<in> reachable g root"
  then have "(root, n) \<in> (edge_rel g)\<^sup>*" by (simp add: reachable_def)
  then show "n \<in> insert root (targets g)"
    by (induction rule: rtrancl_induct) (use successors_in_targets in \<open>auto simp: edge_rel_def\<close>)
qed

lemma finite_reachable: "finite (reachable g root)"
  by (rule finite_subset[OF reachable_subset]) (simp add: finite_targets)

lemma reachable_root: "root \<in> reachable g root"
  by (simp add: reachable_def)

lemma reachable_step: "n \<in> reachable g root \<Longrightarrow> m \<in> set (successors g n) \<Longrightarrow> m \<in> reachable g root"
  by (auto simp: reachable_def edge_rel_def intro: rtrancl_into_rtrancl)

lemma dag_root_no_pred:
  assumes "is_dag_from g root" "n \<in> reachable g root"
  shows "root \<notin> set (successors g n)"
proof
  assume "root \<in> set (successors g n)"
  then have "(n, root) \<in> edge_rel g" by (simp add: edge_rel_def)
  moreover from assms(2) have "(root, n) \<in> (edge_rel g)\<^sup>*" by (simp add: reachable_def)
  ultimately have "(root, root) \<in> (edge_rel g)\<^sup>+" by (meson rtrancl_into_trancl1)
  with assms(1) reachable_root[of root g] show False by (auto simp: is_dag_from_def)
qed

lemma ranked_edge:
  assumes "ranked g rank" "(n, m) \<in> edge_rel g"
  shows "rank m < rank n"
proof -
  from assms(2) obtain e where e: "e \<in> set (next_edges_of g n)" "edge_function e = Some m"
    by (auto simp: edge_rel_def successors_def map_filter_def)
  from next_edges_of_in_graph[OF e(1)] obtain es where "(n, es) \<in> set g" "e \<in> set es" by blast
  with assms(1) e(2) show ?thesis
    by (fastforce simp: ranked_def list_all_iff)
qed

lemma ranked_is_dag: "ranked g rank \<Longrightarrow> is_dag_from g root"
proof -
  assume r: "ranked g rank"
  have "rank m < rank n" if "(n, m) \<in> (edge_rel g)\<^sup>+" for n m
    using that
    by (induction rule: trancl_induct) (use ranked_edge[OF r] in \<open>auto intro: less_trans\<close>)
  then show ?thesis by (fastforce simp: is_dag_from_def)
qed

lemma cd_edges_spec:
  "cd_edges es (queue, seen, deps) = (queue', seen', deps') \<Longrightarrow>
   seen' = seen \<union> set (List.map_filter edge_function es) \<and>
   set queue' = set queue \<union> (set (List.map_filter edge_function es) - seen) \<and>
   (distinct queue \<and> set queue \<inter> set (List.map_filter edge_function es) \<subseteq> seen \<longrightarrow> distinct queue') \<and>
   (\<forall>n. dep_count deps' n = dep_count deps n + int (count_list (List.map_filter edge_function es) n)) \<and>
   (\<forall>n. map_of deps' n = None \<longleftrightarrow> map_of deps n = None \<and> n \<notin> set (List.map_filter edge_function es))"
proof (induction es arbitrary: queue seen deps)
  case Nil
  then show ?case by (simp add: map_filter_simps)
next
  case (Cons e es)
  show ?case
  proof (cases "edge_function e")
    case None
    with Cons.prems have "cd_edges es (queue, seen, deps) = (queue', seen', deps')" by simp
    from Cons.IH[OF this] None show ?thesis by (simp add: map_filter_simps)
  next
    case (Some m)
    let ?deps = "AList.update m ((case map_of deps m of None \<Rightarrow> 0 | Some c \<Rightarrow> c) + 1) deps"
    let ?queue = "if m \<notin> seen then m # queue else queue"
    from Cons.prems Some
    have "cd_edges es (?queue, insert m seen, ?deps) = (queue', seen', deps')"
      by (simp add: Let_def)
    note ih = Cons.IH[OF this]
    have dc: "dep_count ?deps n = dep_count deps n + (if n = m then 1 else 0)" for n
      by (simp add: dep_count_def update_conv')
    have mn: "map_of ?deps n = None \<longleftrightarrow> map_of deps n = None \<and> n \<noteq> m" for n
      by (simp add: update_conv')
    have 1: "seen' = seen \<union> set (List.map_filter edge_function (e # es))"
      using ih Some by (auto simp: map_filter_simps)
    have 2: "set queue' = set queue \<union> (set (List.map_filter edge_function (e # es)) - seen)"
      using ih Some by (auto simp: map_filter_simps split: if_splits)
    have 3: "distinct queue'"
      if "distinct queue" "set queue \<inter> set (List.map_filter edge_function (e # es)) \<subseteq> seen"
    proof -
      from that Some have "distinct ?queue" by (auto simp: map_filter_simps)
      moreover from that Some
      have "set ?queue \<inter> set (List.map_filter edge_function es) \<subseteq> insert m seen"
        by (auto simp: map_filter_simps)
      ultimately show ?thesis using ih by blast
    qed
    have 4: "dep_count deps' n = dep_count deps n + int (count_list (List.map_filter edge_function (e # es)) n)" for n
      using ih dc[of n] Some by (simp add: map_filter_simps)
    have 5: "map_of deps' n = None \<longleftrightarrow> map_of deps n = None \<and> n \<notin> set (List.map_filter edge_function (e # es))" for n
      using ih mn[of n] Some by (auto simp: map_filter_simps)
    show ?thesis using 1 2 3 4 5 by blast
  qed
qed

lemma reachable_closed:
  assumes "root \<in> P" "\<forall>p \<in> P. set (successors g p) \<subseteq> P"
  shows "reachable g root \<subseteq> P"
proof
  fix n assume "n \<in> reachable g root"
  then have "(root, n) \<in> (edge_rel g)\<^sup>*" by (simp add: reachable_def)
  then show "n \<in> P"
    by (induction rule: rtrancl_induct) (use assms in \<open>auto simp: edge_rel_def\<close>)
qed

lemma cd_loop_spec:
  assumes "finite P" "distinct queue" "set queue \<inter> P = {}" "P \<union> set queue = insert root seen"
    and "root \<notin> seen" "\<forall>p \<in> P. set (successors g p) \<subseteq> seen"
    and "P \<union> set queue \<subseteq> reachable g root"
    and "\<forall>n. dep_count deps n = (\<Sum>p \<in> P. int (count_list (successors g p) n))"
    and "\<forall>n. map_of deps n = None \<longleftrightarrow> (\<forall>p \<in> P. n \<notin> set (successors g p))"
    and "\<forall>n \<in> reachable g root. root \<notin> set (successors g n)"
  shows "map_of (cd_loop g (queue, seen, deps)) n =
           (if in_degree g root n = 0 then None else Some (int (in_degree g root n)))"
  using assms
proof (induction g "(queue, seen, deps)" arbitrary: queue seen deps P rule: cd_loop.induct)
  case (1 g seen deps)
  then have P: "P = insert root seen" by simp
  from 1 have "reachable g root \<subseteq> P"
    by (intro reachable_closed) (auto simp: P)
  with 1 have eq: "P = reachable g root" by auto
  have dc: "dep_count deps n = int (in_degree g root n)"
    using 1 by (simp add: in_degree_def eq)
  have "map_of deps n = None \<longleftrightarrow> in_degree g root n = 0"
    using 1(9) finite_reachable[of g root] by (auto simp: in_degree_def eq count_list_0_iff)
  with dc show ?case by (auto simp: dep_count_def split: option.splits)
next
  case (2 g f queue seen deps)
  obtain queue' seen' deps' where r: "cd_edges (next_edges_of g f) (queue, seen, deps) = (queue', seen', deps')"
    by (cases "cd_edges (next_edges_of g f) (queue, seen, deps)") auto
  note sp = cd_edges_spec[OF r, folded successors_def]
  from "2.prems"(7) have fr: "f \<in> reachable g root" by simp
  with "2.prems"(10) have nr: "root \<notin> set (successors g f)" by blast
  from "2.prems"(2,3) have fP: "f \<notin> P" "f \<notin> set queue" "distinct queue" by auto
  have sub: "set queue \<subseteq> insert root seen" using "2.prems"(4) by auto
  have a: "finite (insert f P)" using "2.prems"(1) by simp
  have b: "distinct queue'" using sp fP sub nr by blast
  have c: "set queue' \<inter> insert f P = {}"
  proof -
    have "set queue' = set queue \<union> (set (successors g f) - seen)" using sp by blast
    moreover have "set (successors g f) - seen \<subseteq> - insert root seen" using nr by auto
    moreover have "insert f P \<subseteq> insert root seen" using "2.prems"(4) by auto
    ultimately show ?thesis using "2.prems"(3) fP by auto
  qed
  have d: "insert f P \<union> set queue' = insert root seen'"
    using sp "2.prems"(4) by auto
  have e: "root \<notin> seen'" using sp nr "2.prems"(5) by auto
  have f: "\<forall>p \<in> insert f P. set (successors g p) \<subseteq> seen'"
    using sp "2.prems"(6) by auto
  have g: "insert f P \<union> set queue' \<subseteq> reachable g root"
  proof -
    have "set (successors g f) \<subseteq> reachable g root" using reachable_step[OF fr] by blast
    moreover have "set queue' \<subseteq> set queue \<union> set (successors g f)" using sp by auto
    ultimately show ?thesis using "2.prems"(7) by auto
  qed
  have h: "\<forall>n. dep_count deps' n = (\<Sum>p \<in> insert f P. int (count_list (successors g p) n))"
    using sp "2.prems"(8) "2.prems"(1) fP(1) by simp
  have i: "\<forall>n. map_of deps' n = None \<longleftrightarrow> (\<forall>p \<in> insert f P. n \<notin> set (successors g p))"
    using sp "2.prems"(9) by auto
  from "2.hyps"[OF r a b c d e f g h i "2.prems"(10)] r
  show ?case by simp
qed

lemma compute_dependencies_counts:
  assumes "is_dag_from g root" "dependencies task = []"
  shows "map_of (dependencies (compute_dependencies g root task)) n =
           (if in_degree g root n = 0 then None else Some (int (in_degree g root n)))"
proof -
  have "map_of (cd_loop g ([root], {}, [])) n =
           (if in_degree g root n = 0 then None else Some (int (in_degree g root n)))"
    by (rule cd_loop_spec[where P = "{}"])
       (use dag_root_no_pred[OF assms(1)] reachable_root[of root g] in \<open>auto simp: dep_count_def\<close>)
  with assms(2) show ?thesis by (simp add: compute_dependencies_def)
qed

subsection \<open>One output routed\<close>

lemma enqueue_ready_result:
  assumes g: "map_of (graph_tasks s) r = Some gt"
    and en: "enqueue_ready lib r n buf s = (out, s')"
  shows "(out = Returned () \<and>
          graph_tasks s' = AList.update r (gt\<lparr>outstanding_tasks := outstanding_tasks gt + 1\<rparr>) (graph_tasks s) \<and>
          trace s' = trace s @ [Pushed (Some r) (Some n)]) \<or>
         (out \<noteq> Returned () \<and> s' = s)"
proof (cases "ready_queue s gt (buffer_device lib buf)")
  case (Inl e)
  with g en show ?thesis by (auto simp: enqueue_ready_def)
next
  case (Inr q)
  define item where "item = \<lparr>base = Some r, fn = Some n, inputs = buf, isShutdownTask = False\<rparr>"
  from push_succeeds[of item r s gt q] g obtain s2 where p: "ReadyQueue_push q item True s = Inr s2"
    by (auto simp: item_def)
  from push_increments[OF p _ g]
  have "graph_tasks s2 = AList.update r (gt\<lparr>outstanding_tasks := outstanding_tasks gt + 1\<rparr>) (graph_tasks s)"
    "trace s2 = trace s @ [Pushed (Some r) (Some n)]"
    by (simp_all add: item_def)
  moreover from g en Inr p have "out = Returned ()" "s' = s2"
    by (auto simp: enqueue_ready_def item_def)
  ultimately show ?thesis by simp
qed

lemma graph_tasks_put: "graph_tasks (put_graph_task r gt s) = AList.update r gt (graph_tasks s)"
  by (simp add: put_graph_task_def)

lemma graph_tasks_erase_not_ready:
  "map_of (graph_tasks s) r = Some gt \<Longrightarrow>
   graph_tasks (erase_not_ready r n s) =
     AList.update r (gt\<lparr>not_ready := AList.delete n (not_ready gt)\<rparr>) (graph_tasks s)"
  by (simp add: erase_not_ready_def put_graph_task_def)

lemma trace_erase_not_ready [simp]: "trace (erase_not_ready r n s) = trace s"
  by (simp add: erase_not_ready_def split: option.splits)

lemma route_output_decrements:
  assumes i: "i < length (next_edges_of (nodes lib) func)"
    and e: "edge_function (next_edges_of (nodes lib) func ! i) = Some n"
    and g: "map_of (graph_tasks s) r = Some gt"
    and c: "map_of (dependencies gt) n = Some c"
    and ro: "route_output lib r func i output s = (out, s')"
  shows "\<exists>gt'. graph_tasks s' = AList.update r gt' (graph_tasks s) \<and>
          map_of (dependencies gt') =
            (map_of (dependencies gt))(n := if c - 1 = 0 then None else Some (c - 1)) \<and>
          trace s' = trace s @
            (if out = Returned () \<and> c - 1 = 0 \<and> enqueue_gate gt n
             then [Pushed (Some r) (Some n)] else [])"
proof -
  define deps1 where "deps1 = (if c - 1 = 0 then AList.delete n (dependencies gt)
                                 else AList.update n (c - 1) (dependencies gt))"
  define gt1 where "gt1 = gt\<lparr>dependencies := deps1\<rparr>"
  have d1: "map_of deps1 = (map_of (dependencies gt))(n := if c - 1 = 0 then None else Some (c - 1))"
    by (simp add: deps1_def delete_conv' update_conv')
  have f1: "not_ready gt1 = not_ready gt" "exec_info gt1 = exec_info gt" "dependencies gt1 = deps1"
    by (simp_all add: gt1_def)
  define nxt where "nxt = next_edges_of (nodes lib) func ! i"
  have nf: "edge_function nxt = Some n" using e by (simp add: nxt_def)
  have unf: "route_output lib r func i output s =
     (let is_ready = (c - 1 = 0);
          gt1 = gt\<lparr>dependencies :=
                  (if is_ready then AList.delete n (dependencies gt)
                   else AList.update n (c - 1) (dependencies gt))\<rparr>
      in
      (case map_of (not_ready gt1) n of
         None \<Rightarrow>
           if exec_info gt1 \<noteq> [] \<and> \<not> should_execute_at (exec_info gt1) (Some n)
           then (Returned (), put_graph_task r gt1 s)
           else
             let input_buffer =
                   buffer_add lib (replicate (num_inputs lib n) None)
                     (input_nr (next_edges_of (nodes lib) func ! i)) output
             in
             if is_ready
             then enqueue_ready lib r n input_buffer (put_graph_task r gt1 s)
             else (Returned (),
                   put_graph_task r
                     (gt1\<lparr>not_ready := AList.update n input_buffer (not_ready gt1)\<rparr>) s)
       | Some buf \<Rightarrow>
           let input_buffer = buffer_add lib buf (input_nr (next_edges_of (nodes lib) func ! i)) output;
               gt2 = gt1\<lparr>not_ready := AList.update n input_buffer (not_ready gt1)\<rparr>
           in
           if is_ready then
             (case enqueue_ready lib r n input_buffer (put_graph_task r gt2 s) of
                (Returned u, s') \<Rightarrow> (Returned (), erase_not_ready r n s')
              | other \<Rightarrow> other)
           else (Returned (), put_graph_task r gt2 s)))"
    unfolding route_output_def using i e g c by (simp add: Let_def)
  note ro' = ro[unfolded unf Let_def, folded nxt_def, folded deps1_def, folded gt1_def, unfolded f1]
  show ?thesis
  proof (cases "map_of (not_ready gt) n")
    case None
    note nrn = this
    show ?thesis
    proof (cases "exec_info gt \<noteq> [] \<and> \<not> should_execute_at (exec_info gt) (Some n)")
      case True
      with ro' nrn have "out = Returned ()" "s' = put_graph_task r gt1 s" by (auto simp: f1)
      moreover from True nrn have "\<not> enqueue_gate gt n" by (simp add: enqueue_gate_def)
      ultimately show ?thesis using d1 f1 by (auto simp: graph_tasks_put intro!: exI[of _ gt1])
    next
      case False
      then have gate: "enqueue_gate gt n" by (auto simp: enqueue_gate_def)
      show ?thesis
      proof (cases "c - 1 = 0")
        case True
        let ?buf = "buffer_add lib (replicate (num_inputs lib n) None) (input_nr nxt) output"
        let ?s1 = "put_graph_task r gt1 s"
        from ro' nrn False True have en: "enqueue_ready lib r n ?buf ?s1 = (out, s')" by (auto simp: f1)
        have g1: "map_of (graph_tasks ?s1) r = Some gt1" by (simp add: map_of_put_graph_task)
        from enqueue_ready_result[OF g1 en]
        show ?thesis
        proof
          assume a: "out = Returned () \<and>
            graph_tasks s' = AList.update r (gt1\<lparr>outstanding_tasks := outstanding_tasks gt1 + 1\<rparr>)
                               (graph_tasks ?s1) \<and>
            trace s' = trace ?s1 @ [Pushed (Some r) (Some n)]"
          then show ?thesis using d1 f1 True gate
            by (auto simp: graph_tasks_put intro!: exI[of _ "gt1\<lparr>outstanding_tasks := outstanding_tasks gt1 + 1\<rparr>"])
        next
          assume "out \<noteq> Returned () \<and> s' = ?s1"
          then show ?thesis using d1 f1
            by (auto simp: graph_tasks_put intro!: exI[of _ gt1])
        qed
      next
        case nz: False
        let ?gt2 = "gt1\<lparr>not_ready := AList.update n
                       (buffer_add lib (replicate (num_inputs lib n) None) (input_nr nxt) output)
                       (not_ready gt1)\<rparr>"
        from ro' nrn False nz have "out = Returned ()" "s' = put_graph_task r ?gt2 s" by (auto simp: f1)
        then show ?thesis using d1 f1 nz
          by (auto simp: graph_tasks_put intro!: exI[of _ ?gt2])
      qed
    qed
  next
    case (Some buf)
    then have gate: "enqueue_gate gt n" by (simp add: enqueue_gate_def)
    let ?buf = "buffer_add lib buf (input_nr nxt) output"
    let ?gt2 = "gt1\<lparr>not_ready := AList.update n ?buf (not_ready gt1)\<rparr>"
    let ?s1 = "put_graph_task r ?gt2 s"
    show ?thesis
    proof (cases "c - 1 = 0")
      case True
      obtain o1 s1' where en: "enqueue_ready lib r n ?buf ?s1 = (o1, s1')"
        by (cases "enqueue_ready lib r n ?buf ?s1")
      from ro' Some True en have res: "(out, s') =
          (case o1 of Returned u \<Rightarrow> (Returned (), erase_not_ready r n s1') | _ \<Rightarrow> (o1, s1'))"
        by (auto simp: f1 split: outcome.splits)
      have g1: "map_of (graph_tasks ?s1) r = Some ?gt2" by (simp add: map_of_put_graph_task)
      from enqueue_ready_result[OF g1 en]
      show ?thesis
      proof
        assume a: "o1 = Returned () \<and>
            graph_tasks s1' = AList.update r (?gt2\<lparr>outstanding_tasks := outstanding_tasks ?gt2 + 1\<rparr>)
                               (graph_tasks ?s1) \<and>
            trace s1' = trace ?s1 @ [Pushed (Some r) (Some n)]"
        let ?gt3 = "?gt2\<lparr>outstanding_tasks := outstanding_tasks ?gt2 + 1\<rparr>"
        from a have g3: "map_of (graph_tasks s1') r = Some ?gt3" by (simp add: update_conv')
        from a res have o: "out = Returned ()" "s' = erase_not_ready r n s1'" by simp_all
        have "graph_tasks s' = AList.update r (?gt3\<lparr>not_ready := AList.delete n (not_ready ?gt3)\<rparr>)
                                 (graph_tasks s)"
          unfolding o(2) graph_tasks_erase_not_ready[OF g3] using a
          by (simp add: graph_tasks_put)
        moreover have "trace s' = trace s @ [Pushed (Some r) (Some n)]"
          using o a by simp
        ultimately show ?thesis using d1 f1 True gate o
          by (auto intro!: exI[of _ "?gt3\<lparr>not_ready := AList.delete n (not_ready ?gt3)\<rparr>"])
      next
        assume a: "o1 \<noteq> Returned () \<and> s1' = ?s1"
        with res have "out = o1" "s' = ?s1" by (cases o1; simp)+
        with a show ?thesis using d1 f1
          by (auto simp: graph_tasks_put intro!: exI[of _ ?gt2])
      qed
    next
      case nz: False
      from ro' Some nz have "out = Returned ()" "s' = ?s1" by (auto simp: f1)
      then show ?thesis using d1 f1 nz
        by (auto simp: graph_tasks_put intro!: exI[of _ ?gt2])
    qed
  qed
qed

subsection \<open>Each node pushed at most once\<close>

lemma pushes_simps [simp]:
  "pushes r [] = []" "pushes r (evs @ evs') = pushes r evs @ pushes r evs'"
  "pushes r [Applied n] = []" "pushes r [Entered_thread_main g b] = []"
  "pushes r [Pushed w None] = []" "pushes r [Pushed None f] = []"
  "pushes r [Pushed (Some r') (Some n)] = (if r' = r then [n] else [])"
  by (simp_all add: pushes_def map_filter_def split: option.splits)

lemma once_refl [simp]: "once r s s"
  by (simp add: once_def)

lemma once_trans:
  assumes "once r s s'" "once r s' s''"
  shows "once r s s''"
proof -
  from assms(1) obtain evs where 1: "trace s' = trace s @ evs" "distinct (pushes r evs)"
    "set (pushes r evs) \<subseteq> waiting s r - waiting s' r" "waiting s' r \<subseteq> waiting s r"
    by (auto simp: once_def)
  from assms(2) obtain evs' where 2: "trace s'' = trace s' @ evs'" "distinct (pushes r evs')"
    "set (pushes r evs') \<subseteq> waiting s' r - waiting s'' r" "waiting s'' r \<subseteq> waiting s' r"
    by (auto simp: once_def)
  have "trace s'' = trace s @ (evs @ evs')" using 1 2 by simp
  moreover have "distinct (pushes r (evs @ evs'))" using 1 2 by auto
  moreover have "set (pushes r (evs @ evs')) \<subseteq> waiting s r - waiting s'' r" using 1 2 by auto
  moreover have "waiting s'' r \<subseteq> waiting s r" using 1 2 by auto
  ultimately show ?thesis unfolding once_def by blast
qed

lemma once_same:
  assumes "graph_tasks s' = graph_tasks s" "trace s' = trace s @ evs" "pushes r evs = []"
  shows "once r s s'"
  using assms by (auto simp: once_def waiting_def)

lemma once_put:
  assumes "map_of (graph_tasks s) r = Some gt" "dependencies gt' = dependencies gt"
  shows "once r0 s (put_graph_task r gt' s)"
  using assms by (auto simp: once_def waiting_def map_of_put_graph_task)

lemma once_erase_not_ready: "once r0 s (erase_not_ready r n s)"
  by (auto simp: erase_not_ready_def split: option.splits intro!: once_put)

lemma once_push_quiet:
  assumes "ReadyQueue_push q item inc s = Inr s'" "pushes r0 [Pushed (base item) (fn item)] = []"
  shows "once r0 s s'"
proof (cases inc)
  case False
  with assms show ?thesis by (auto simp: ReadyQueue_push_def intro!: once_same)
next
  case True
  with assms(1) obtain r gt where l: "lock s (base item) = Some (r, gt)"
    by (cases "lock s (base item)") (auto simp: ReadyQueue_push_def)
  define s1 where "s1 = put_graph_task r (gt\<lparr>outstanding_tasks := outstanding_tasks gt + 1\<rparr>) s"
  from assms(1) True l have s': "s' = log_event (Pushed (base item) (fn item))
      (set_heap q (heap_of s1 q @ [item]) s1)"
    by (simp add: ReadyQueue_push_def Let_def s1_def)
  from l have "map_of (graph_tasks s) r = Some gt"
    by (auto simp: lock_def split: option.splits)
  then have "once r0 s s1" unfolding s1_def by (rule once_put) simp
  moreover have "once r0 s1 s'" unfolding s' using assms(2) by (intro once_same) simp_all
  ultimately show ?thesis by (rule once_trans)
qed

lemma once_route_output: "once r0 s (snd (route_output lib r func i output s))"
proof -
  obtain out s' where ro: "route_output lib r func i output s = (out, s')"
    by (cases "route_output lib r func i output s")
  have "once r0 s s'"
  proof (cases "i < length (next_edges_of (nodes lib) func)")
    case False
    with ro show ?thesis by (simp add: route_output_def)
  next
    case i: True
    show ?thesis
    proof (cases "edge_function (next_edges_of (nodes lib) func ! i)")
      case None
      with ro i show ?thesis by (simp add: route_output_def Let_def)
    next
      case (Some n)
      note e = this
      show ?thesis
      proof (cases "map_of (graph_tasks s) r")
        case None
        with ro i e show ?thesis by (simp add: route_output_def Let_def)
      next
        case (Some gt)
        note g = this
        show ?thesis
        proof (cases "map_of (dependencies gt) n")
          case None
          with ro i e g show ?thesis by (simp add: route_output_def Let_def)
        next
          case (Some c)
          from route_output_decrements[OF i e g Some ro]
          obtain gt' where gs: "graph_tasks s' = AList.update r gt' (graph_tasks s)"
            and ds: "map_of (dependencies gt') =
                       (map_of (dependencies gt))(n := if c - 1 = 0 then None else Some (c - 1))"
            and tr: "trace s' = trace s @
                       (if out = Returned () \<and> c - 1 = 0 \<and> enqueue_gate gt n
                        then [Pushed (Some r) (Some n)] else [])"
            by blast
          show ?thesis
          proof (cases "r0 = r")
            case False
            then have "waiting s' r0 = waiting s r0" using gs by (simp add: waiting_def update_conv')
            moreover have "pushes r0 (if out = Returned () \<and> c - 1 = 0 \<and> enqueue_gate gt n
                        then [Pushed (Some r) (Some n)] else []) = []"
              using False by simp
            ultimately show ?thesis using tr unfolding once_def by auto
          next
            case True
            have w: "waiting s r0 = dom (map_of (dependencies gt))"
              using g True by (simp add: waiting_def)
            have w': "waiting s' r0 = dom (map_of (dependencies gt'))"
              using gs True by (simp add: waiting_def update_conv')
            have nin: "n \<in> waiting s r0" using Some w by auto
            have sub: "waiting s' r0 \<subseteq> waiting s r0"
              unfolding w w' ds using Some by (auto split: if_splits)
            have gone: "c - 1 = 0 \<Longrightarrow> n \<notin> waiting s' r0"
              unfolding w' ds by simp
            show ?thesis
              unfolding once_def using tr nin sub gone True by auto
          qed
        qed
      qed
    qed
  qed
  with ro show ?thesis by simp
qed

lemma once_route_loop: "once r0 s (snd (route_loop lib r func outputs idxs s))"
proof (induction idxs arbitrary: s)
  case Nil
  then show ?case by simp
next
  case (Cons i idxs)
  obtain out s1 where r: "route_output lib r func i (outputs ! i) s = (out, s1)"
    by (cases "route_output lib r func i (outputs ! i) s")
  have e1: "once r0 s s1" using once_route_output[of r0 s lib r func i "outputs ! i"] r by simp
  show ?case
  proof (cases out)
    case (Returned u)
    with r e1 Cons.IH[of s1] show ?thesis by (auto intro: once_trans)
  qed (use r e1 in auto)
qed

lemma once_call_function: "once r0 s (snd (call_function lib gt func ins s))"
proof -
  have "once r0 s s'" if "graph_tasks s' = graph_tasks s" "trace s' = trace s @ [Applied func]" for s'
    using that by (rule once_same) simp
  then show ?thesis
    unfolding call_function_def Let_def
    by (simp split: sum.splits)
qed

lemma once_run_function: "once r0 s (snd (run_function lib r func ins s))"
proof (cases "map_of (graph_tasks s) r")
  case None
  then show ?thesis by (simp add: run_function_def)
next
  case (Some gt)
  obtain out s1 where c: "call_function lib gt func ins s = (out, s1)"
    by (cases "call_function lib gt func ins s")
  have e1: "once r0 s s1" using once_call_function[of r0 s lib gt func ins] c by simp
  have "graph_tasks s1 = graph_tasks s"
    using c unfolding call_function_def Let_def by (auto split: sum.splits)
  with Some have g1: "map_of (graph_tasks s1) r = Some gt" by simp
  have e2: "once r0 s (put_graph_task r (gt\<lparr>leaf_streams := ls\<rparr>) s1)" for ls
    by (rule once_trans[OF e1]) (use g1 in \<open>auto intro!: once_put\<close>)
  have e3: "once r0 s (snd (route_loop lib r func outs idxs s1))" for outs idxs
    by (rule once_trans[OF e1 once_route_loop])
  show ?thesis
    using Some c e1 e2 e3
    by (cases out) (auto simp: run_function_def split: option.splits)
qed

lemma once_evaluate_function: "once r0 s (snd (evaluate_function lib r func ins s))"
proof (cases "map_of (graph_tasks s) r")
  case None
  then show ?thesis by (simp add: evaluate_function_def)
next
  case (Some gt)
  have p: "once r0 s (put_graph_task r (gt\<lparr>captured_vars := cv\<rparr>) s)" for cv
    using Some by (intro once_put) simp_all
  have e: "once r0 s (snd (run_function lib r func ins (put_graph_task r (gt\<lparr>captured_vars := cv\<rparr>) s)))" for cv
    by (rule once_trans[OF p once_run_function])
  show ?thesis
    unfolding evaluate_function_def Let_def
    by (simp split: option.splits add: Some p e once_run_function)
qed

lemma set_exception_dependencies [simp]:
  "dependencies (fst (set_exception gt e)) = dependencies gt"
  by (simp add: set_exception_def Let_def)

lemma once_thread_on_exception: "once r0 s (snd (thread_on_exception r e s))"
proof (cases "map_of (graph_tasks s) r")
  case None
  then show ?thesis by (simp add: thread_on_exception_def)
next
  case (Some gt)
  have eq: "snd (thread_on_exception r e s) = put_graph_task r (fst (set_exception gt e)) s"
    using Some by (simp add: thread_on_exception_def split: prod.splits option.splits)
  show ?thesis unfolding eq using Some by (rule once_put) simp
qed

lemma once_run_task: "once r0 s (snd (run_task lib r gt task s))"
proof (cases "fn task")
  case None
  then show ?thesis by (simp add: run_task_def)
next
  case (Some f)
  obtain out s1 where c: "evaluate_function lib r f (inputs task) s = (out, s1)"
    by (cases "evaluate_function lib r f (inputs task) s")
  have e1: "once r0 s s1" using once_evaluate_function[of r0 s lib r f "inputs task"] c by simp
  have e2: "once r0 s (snd (thread_on_exception r e s1))" for e
    by (rule once_trans[OF e1 once_thread_on_exception])
  show ?thesis using Some c e1 e2 by (cases out) (auto simp: run_task_def)
qed

lemma once_finish_task: "once r0 s (snd (finish_task lib r s))"
proof (cases "map_of (graph_tasks s) r")
  case None
  then show ?thesis by (simp add: finish_task_def)
next
  case (Some gt0)
  define gt1 where "gt1 = gt0\<lparr>outstanding_tasks := outstanding_tasks gt0 - 1\<rparr>"
  define gt2 where "gt2 = (if graph_task_completed gt1 then mark_graph_task_completed lib s gt1 else gt1)"
  define s1 where "s1 = put_graph_task r gt2 s"
  define wake where "wake = (case ready_queue_by_index s1 gt2 (owner gt2) of
           Inl e \<Rightarrow> (Raised e, s1)
         | Inr q \<Rightarrow>
             (case ReadyQueue_push q \<lparr>base = Some r, fn = None, inputs = [], isShutdownTask = False\<rparr>
                     True s1 of
                Inl e \<Rightarrow> (Raised e, s1)
              | Inr s2 \<Rightarrow> (Returned Continue, s2)))"
  have "dependencies gt2 = dependencies gt0" by (simp add: gt2_def gt1_def)
  then have e1: "once r0 s s1" unfolding s1_def using Some by (intro once_put) simp_all
  have fin: "finish_task lib r s =
     (if graph_task_completed gt1 \<and> worker_device s = CPU_DEVICE then (Returned Break, s1)
      else if owner gt2 \<noteq> worker_device s \<and> graph_task_completed gt1 then wake
      else (Returned Continue, s1))"
    unfolding finish_task_def Let_def gt1_def gt2_def s1_def wake_def by (simp add: Some)
  have w: "once r0 s (snd wake)"
  proof (cases "ready_queue_by_index s1 gt2 (owner gt2)")
    case (Inl e)
    then show ?thesis using e1 by (simp add: wake_def)
  next
    case (Inr q)
    note q = this
    show ?thesis
    proof (cases "ReadyQueue_push q \<lparr>base = Some r, fn = None, inputs = [], isShutdownTask = False\<rparr> True s1")
      case (Inl e)
      then show ?thesis using e1 q by (simp add: wake_def)
    next
      case (Inr s2)
      have "once r0 s1 s2" by (rule once_push_quiet[OF Inr]) simp
      with e1 have "once r0 s s2" by (rule once_trans)
      then show ?thesis using q Inr by (simp add: wake_def)
    qed
  qed
  show ?thesis unfolding fin using e1 w by simp
qed

lemma once_pop: "once r0 s (snd (ReadyQueue_pop lib q s))"
  by (auto simp: ReadyQueue_pop_def Let_def intro!: once_same[where evs = "[]"])

lemma once_thread_main_task: "once r0 s (snd (thread_main_task lib re task s))"
proof (cases "lock s (base task)")
  case None
  then show ?thesis by (simp add: thread_main_task_def split: option.splits)
next
  case (Some p)
  obtain r gt where p: "p = (r, gt)" by (cases p)
  obtain out s1 where c: "run_task lib r gt task s = (out, s1)" by (cases "run_task lib r gt task s")
  have e1: "once r0 s s1" using once_run_task[of r0 s lib r gt task] c by simp
  have e2: "once r0 s (snd (finish_task lib r s1))"
    by (rule once_trans[OF e1 once_finish_task])
  have "thread_main_task lib re task s =
      (if isShutdownTask task then (Returned Break, s)
       else (case out of Returned u \<Rightarrow> finish_task lib r s1 | Raised e \<Rightarrow> (Raised e, s1)
             | Blocked \<Rightarrow> (Blocked, s1) | Undefined \<Rightarrow> (Undefined, s1)))"
    unfolding thread_main_task_def by (simp add: Some p c split: outcome.splits)
  then show ?thesis using e1 e2 by (simp split: outcome.splits)
qed

lemma once_thread_main_loop:
  "thread_main_loop fuel lib g re s = Some (out, s') \<Longrightarrow> once r0 s s'"
proof (induction fuel arbitrary: s)
  case 0
  then show ?case by simp
next
  case (Suc fuel)
  show ?case
  proof (cases "loop_condition s g re")
    case None
    with Suc.prems show ?thesis by simp
  next
    case (Some b)
    show ?thesis
    proof (cases b)
      case False
      with Some Suc.prems show ?thesis by simp
    next
      case True
      show ?thesis
      proof (cases "local_ready_queue s")
        case None
        with Some True Suc.prems show ?thesis by simp
      next
        case (Some q)
        note q = this
        show ?thesis
        proof (cases "heap_of s q = []")
          case True
          with \<open>loop_condition s g re = Some b\<close> \<open>b\<close> q Suc.prems show ?thesis by simp
        next
          case False
          obtain task s1 where pop: "ReadyQueue_pop lib q s = (task, s1)"
            by (cases "ReadyQueue_pop lib q s")
          obtain o2 s2 where t: "thread_main_task lib re task s1 = (o2, s2)"
            by (cases "thread_main_task lib re task s1")
          have e1: "once r0 s s1" using once_pop[of r0 s lib q] pop by simp
          have e2: "once r0 s1 s2" using once_thread_main_task[of r0 s1 lib re task] t by simp
          have e: "once r0 s s2" by (rule once_trans[OF e1 e2])
          from Suc.prems \<open>loop_condition s g re = Some b\<close> \<open>b\<close> q False pop t
          have "(case o2 of Returned Continue \<Rightarrow> thread_main_loop fuel lib g re s2
                 | Returned Break \<Rightarrow> Some (Returned (), s2)
                 | Raised e \<Rightarrow> Some (Raised e, s2)
                 | Blocked \<Rightarrow> Some (Blocked, s2)
                 | Undefined \<Rightarrow> Some (Undefined, s2)) = Some (out, s')"
            by simp
          then show ?thesis
            using e Suc.IH[of s2]
            by (auto split: outcome.splits loop_control.splits intro: once_trans)
        qed
      qed
    qed
  qed
qed

lemma once_thread_main:
  assumes "thread_main fuel lib g re s = Some (out, s')"
  shows "once r0 s s'"
proof -
  let ?s = "log_event (Entered_thread_main g re) s"
  define c1 where "c1 \<longleftrightarrow> re = (g = None)"
  define c2 where "c2 \<longleftrightarrow> local_ready_queue ?s = None"
  have eq: "thread_main fuel lib g re s =
     (if c1
      then Some (Raised (InternalAssert ''reentrant_thread != (graph_task == nullptr)''), ?s)
      else if c2
      then Some (Raised (InternalAssert ''local_ready_queue != nullptr''), ?s)
      else thread_main_loop fuel lib g re ?s)"
    unfolding thread_main_def Let_def c1_def c2_def ..
  have l: "once r0 s ?s" by (rule once_same[where evs = "[Entered_thread_main g re]"]) simp_all
  show ?thesis
  proof (cases c1)
    case True
    with assms[unfolded eq] have "s' = ?s" by simp
    then show ?thesis using l by simp
  next
    case False
    note f = this
    show ?thesis
    proof (cases c2)
      case True
      with assms[unfolded eq] f have "s' = ?s" by simp
      then show ?thesis using l by simp
    next
      case False
      with assms[unfolded eq] f have "thread_main_loop fuel lib g re ?s = Some (out, s')"
        by simp
      then have "once r0 ?s s'" by (rule once_thread_main_loop)
      with l show ?thesis by (rule once_trans)
    qed
  qed
qed

lemma once_fields: "graph_tasks s' = graph_tasks s \<Longrightarrow> trace s' = trace s \<Longrightarrow> once r s s'"
  by (rule once_same[where evs = "[]"]) simp_all

lemma once_set_owner: "once r0 s (set_owner r d s)"
  by (auto simp: set_owner_def split: option.splits intro!: once_put)

lemma execute_with_graph_task_once:
  assumes g: "map_of (graph_tasks s0) r = Some gt"
    and nroot: "map_of (dependencies gt) root = None"
    and run: "execute_with_graph_task fuel lib r root s0 = Some (out, s')"
  shows "\<exists>evs. trace s' = trace s0 @ evs \<and> distinct (pushes r evs) \<and>
           set (pushes r evs) \<subseteq> insert root (dom (map_of (dependencies gt)))"
proof -
  define s where "s = call_once_start_device_threads lib s0"
  define item where "item = \<lparr>base = Some r, fn = Some root, inputs = [], isShutdownTask = False\<rparr>"
  have gts: "map_of (graph_tasks s) r = Some gt" using g by (simp add: s_def)
  have ts: "trace s = trace s0" by (simp add: s_def)
  show ?thesis
  proof (cases "ready_queue s gt kCPU_device")
    case (Inl e)
    with run gts have "s' = s"
      unfolding execute_with_graph_task_def Let_def s_def[symmetric] by simp
    with ts show ?thesis by simp
  next
    case (Inr q)
    from push_succeeds[of item r s gt q] gts obtain s1 where p: "ReadyQueue_push q item True s = Inr s1"
      by (auto simp: item_def)
    define gt1 where "gt1 = gt\<lparr>outstanding_tasks := outstanding_tasks gt + 1\<rparr>"
    from push_increments[OF p _ gts]
    have s1g: "map_of (graph_tasks s1) r = Some gt1"
      and s1t: "trace s1 = trace s0 @ [Pushed (Some r) (Some root)]"
      by (simp_all add: item_def update_conv' gt1_def ts)
    have w1: "waiting s1 r = dom (map_of (dependencies gt))"
      using s1g by (simp add: waiting_def gt1_def)
    have rest: "once r s1 s'"
    proof (cases "worker_device s1 = NO_DEVICE")
      case True
      define s3 where "s3 = set_owner r (worker_device (set_device CPU_DEVICE s1)) (set_device CPU_DEVICE s1)"
      have e3: "once r s1 s3"
        unfolding s3_def
        by (rule once_trans[OF once_fields once_set_owner]) (simp_all add: set_device_def)
      from run gts Inr p True have tm:
        "(case thread_main fuel lib None False s3 of
            None \<Rightarrow> None
          | Some (Returned u, s4) \<Rightarrow>
              Some (wait_result r (s4\<lparr>worker_device := NO_DEVICE, local_ready_queue := None\<rparr>),
                    s4\<lparr>worker_device := NO_DEVICE, local_ready_queue := None\<rparr>)
          | Some (Raised e, s4) \<Rightarrow> Some (Raised e, s4)
          | Some (Blocked, s4) \<Rightarrow> Some (Blocked, s4)
          | Some (Undefined, s4) \<Rightarrow> Some (Undefined, s4)) = Some (out, s')"
        unfolding execute_with_graph_task_def Let_def s_def[symmetric] item_def[symmetric] s3_def
        by simp
      then obtain o4 s4 where t4: "thread_main fuel lib None False s3 = Some (o4, s4)"
        by (cases "thread_main fuel lib None False s3") auto
      have e4: "once r s3 s4" by (rule once_thread_main[OF t4])
      have "graph_tasks s' = graph_tasks s4 \<and> trace s' = trace s4"
        using tm t4 by (cases o4) auto
      then have "once r s4 s'" by (intro once_fields) simp_all
      with e3 e4 show ?thesis by (blast intro: once_trans)
    next
      case False
      define s2 where "s2 = set_owner r (worker_device s1) s1"
      define s3 where "s3 = s2\<lparr>total_depth := total_depth s2 + 1, current_depth := current_depth s2 + 1\<rparr>"
      have e2: "once r s1 s2" unfolding s2_def by (rule once_set_owner)
      have e3: "once r s2 s3" unfolding s3_def by (rule once_fields) simp_all
      have unfold: "execute_with_graph_task fuel lib r root s0 =
          (if sint (max_recursion_depth s2) \<le> sint (current_depth s2) then
             Some (wait_result r (add_thread_pool_task r s2), add_thread_pool_task r s2)
           else
             (case thread_main fuel lib (Some r) True s3 of
                None \<Rightarrow> None
              | Some (Returned u, s4) \<Rightarrow>
                  (let s5 = s4\<lparr>current_depth := current_depth s4 - 1, total_depth := total_depth s4 - 1\<rparr>
                   in case map_of (graph_tasks s5) r of
                        None \<Rightarrow> Some (Undefined, s5)
                      | Some gt \<Rightarrow>
                          if \<not> completed (future_result gt)
                          then Some (Raised (InternalAssert ''graph_task->future_result_->completed()''), s5)
                          else Some (wait_result r s5, s5))
              | Some (Raised e, s4) \<Rightarrow> Some (Raised e, s4)
              | Some (Blocked, s4) \<Rightarrow> Some (Blocked, s4)
              | Some (Undefined, s4) \<Rightarrow> Some (Undefined, s4)))"
        unfolding execute_with_graph_task_def Let_def s_def[symmetric] item_def[symmetric]
          s3_def s2_def
        using gts Inr p False by simp
      show ?thesis
      proof (cases "sint (max_recursion_depth s2) \<le> sint (current_depth s2)")
        case True
        with run[unfolded unfold] have "add_thread_pool_task r s2 = s'" by clarsimp
        then have "once r s2 s'" by (intro once_fields) (auto simp: add_thread_pool_task_def)
        with e2 show ?thesis by (rule once_trans)
      next
        case c: False
        from run[unfolded unfold] c obtain o4 s4 where tm: "thread_main fuel lib (Some r) True s3 = Some (o4, s4)"
          by (cases "thread_main fuel lib (Some r) True s3") auto
        have e4: "once r s3 s4" by (rule once_thread_main[OF tm])
        have "graph_tasks s' = graph_tasks s4 \<and> trace s' = trace s4"
          using run[unfolded unfold] c tm
          by (cases o4) (auto simp: Let_def split: option.splits if_splits)
        then have "once r s4 s'" by (intro once_fields) simp_all
        with e2 e3 e4 show ?thesis by (blast intro: once_trans)
      qed
    qed
    then obtain evs where evs: "trace s' = trace s1 @ evs" "distinct (pushes r evs)"
      "set (pushes r evs) \<subseteq> waiting s1 r" by (auto simp: once_def)
    have "root \<notin> waiting s1 r" using nroot w1 by auto
    with evs have "distinct (pushes r ([Pushed (Some r) (Some root)] @ evs))"
      unfolding pushes_simps(2) by auto
    moreover have "trace s' = trace s0 @ ([Pushed (Some r) (Some root)] @ evs)"
      using evs s1t by simp
    moreover have "set (pushes r ([Pushed (Some r) (Some root)] @ evs)) \<subseteq>
                     insert root (dom (map_of (dependencies gt)))"
      unfolding pushes_simps(2) using evs w1 by auto
    ultimately show ?thesis by blast
  qed
qed

lemma count_list_pushes:
  "count_list evs (Pushed (Some r) (Some n)) = count_list (pushes r evs) n"
proof (induction evs)
  case Nil
  then show ?case by simp
next
  case (Cons ev evs)
  have "pushes r (ev # evs) = pushes r [ev] @ pushes r evs"
    using pushes_simps(2)[of r "[ev]" evs] by simp
  moreover have "count_list (pushes r [ev]) n = (if ev = Pushed (Some r) (Some n) then 1 else 0)"
    by (auto simp: pushes_def map_filter_def split: event.splits option.splits)
  ultimately show ?case using Cons by simp
qed

lemma distinct_count_le_1: "distinct xs \<Longrightarrow> count_list xs x \<le> 1"
  by (induction xs) (auto simp: count_list_0_iff)

lemma in_pushes: "Pushed (Some r) (Some n) \<in> set evs \<Longrightarrow> n \<in> set (pushes r evs)"
  using count_list_pushes[of evs r n] by (metis count_list_0_iff)

lemma counted_reachable:
  assumes "in_degree g root n \<noteq> 0"
  shows "n \<in> reachable g root"
proof -
  from assms obtain p where "p \<in> reachable g root" "count_list (successors g p) n \<noteq> 0"
    unfolding in_degree_def by (meson sum.neutral)
  then show ?thesis using reachable_step[of p g root n] by (simp add: count_list_0_iff)
qed

lemma dag_root_uncounted:
  assumes "is_dag_from g root"
  shows "in_degree g root root = 0"
  unfolding in_degree_def
  using dag_root_no_pred[OF assms] by (simp add: count_list_0_iff)

text \<open>
  Claim C2.  If no cycle can be reached from the root, \<open>compute_dependencies\<close> on a
  graph task without dependencies leaves \<open>dependencies_[n]\<close> at the number of edges
  from reachable nodes into \<open>n\<close>, with no entry for a node without such an edge.
  When \<open>evaluate_function\<close> routes an output along a valid edge into \<open>n\<close>, the count of
  \<open>n\<close> goes down by one and the entry is erased if it is zero then; \<open>n\<close> is pushed only
  if the count is zero then, and exactly if, besides, \<open>n\<close> has a buffer in \<open>not_ready_\<close>
  or \<open>exec_info_\<close> is empty or says that \<open>n\<close> should execute (and the push does not
  throw).  In a call of \<open>execute_with_graph_task\<close> each node is pushed for the graph
  task at most once, and every node pushed is reachable from the root.
\<close>

theorem dependencies_counted_and_enqueued_once:
  assumes dag: "is_dag_from (nodes lib) root" and fresh: "dependencies task = []"
  shows "(\<forall>n. map_of (dependencies (compute_dependencies (nodes lib) root task)) n =
               (if in_degree (nodes lib) root n = 0 then None
                else Some (int (in_degree (nodes lib) root n)))) \<and>
         (\<forall>r func i output s gt n c out s'.
            i < length (next_edges_of (nodes lib) func) \<and>
            edge_function (next_edges_of (nodes lib) func ! i) = Some n \<and>
            map_of (graph_tasks s) r = Some gt \<and> map_of (dependencies gt) n = Some c \<and>
            route_output lib r func i output s = (out, s') \<longrightarrow>
            (\<exists>gt'. map_of (graph_tasks s') r = Some gt' \<and>
               map_of (dependencies gt') =
                 (map_of (dependencies gt))(n := if c - 1 = 0 then None else Some (c - 1)) \<and>
               trace s' = trace s @
                 (if out = Returned () \<and> c - 1 = 0 \<and> enqueue_gate gt n
                  then [Pushed (Some r) (Some n)] else []))) \<and>
         (\<forall>fuel r s gt out s'.
            map_of (graph_tasks s) r = Some gt \<and>
            dependencies gt = dependencies (compute_dependencies (nodes lib) root task) \<and>
            execute_with_graph_task fuel lib r root s = Some (out, s') \<longrightarrow>
            (\<exists>evs. trace s' = trace s @ evs \<and>
               (\<forall>n. count_list evs (Pushed (Some r) (Some n)) \<le> 1) \<and>
               (\<forall>n. Pushed (Some r) (Some n) \<in> set evs \<longrightarrow> n \<in> reachable (nodes lib) root)))"
proof -
  let ?g = "nodes lib"
  let ?deps = "dependencies (compute_dependencies ?g root task)"
  have a: "map_of ?deps n =
               (if in_degree ?g root n = 0 then None else Some (int (in_degree ?g root n)))" for n
    by (rule compute_dependencies_counts[OF dag fresh])
  have b: "\<exists>gt'. map_of (graph_tasks s') r = Some gt' \<and>
               map_of (dependencies gt') =
                 (map_of (dependencies gt))(n := if c - 1 = 0 then None else Some (c - 1)) \<and>
               trace s' = trace s @
                 (if out = Returned () \<and> c - 1 = 0 \<and> enqueue_gate gt n
                  then [Pushed (Some r) (Some n)] else [])"
    if "i < length (next_edges_of ?g func) \<and>
            edge_function (next_edges_of ?g func ! i) = Some n \<and>
            map_of (graph_tasks s) r = Some gt \<and> map_of (dependencies gt) n = Some c \<and>
            route_output lib r func i outp s = (out, s')" for r func i outp s gt n c out s'
  proof -
    from that have h: "i < length (next_edges_of ?g func)"
      "edge_function (next_edges_of ?g func ! i) = Some n"
      "map_of (graph_tasks s) r = Some gt" "map_of (dependencies gt) n = Some c"
      "route_output lib r func i outp s = (out, s')" by simp_all
    from route_output_decrements[OF h]
    obtain gt' where "graph_tasks s' = AList.update r gt' (graph_tasks s)"
      and rest: "map_of (dependencies gt') =
                 (map_of (dependencies gt))(n := if c - 1 = 0 then None else Some (c - 1))"
        "trace s' = trace s @
                 (if out = Returned () \<and> c - 1 = 0 \<and> enqueue_gate gt n
                  then [Pushed (Some r) (Some n)] else [])"
      by blast
    then have "map_of (graph_tasks s') r = Some gt'" by (simp add: update_conv')
    with rest show ?thesis by blast
  qed
  have c: "\<exists>evs. trace s' = trace s @ evs \<and>
               (\<forall>n. count_list evs (Pushed (Some r) (Some n)) \<le> 1) \<and>
               (\<forall>n. Pushed (Some r) (Some n) \<in> set evs \<longrightarrow> n \<in> reachable ?g root)"
    if "map_of (graph_tasks s) r = Some gt \<and> dependencies gt = ?deps \<and>
            execute_with_graph_task fuel lib r root s = Some (out, s')" for fuel r s gt out s'
  proof -
    from that have h: "map_of (graph_tasks s) r = Some gt" "dependencies gt = ?deps"
      "execute_with_graph_task fuel lib r root s = Some (out, s')" by simp_all
    have nroot: "map_of (dependencies gt) root = None"
      unfolding h(2) a using dag_root_uncounted[OF dag] by simp
    from execute_with_graph_task_once[OF h(1) nroot h(3)]
    obtain evs where evs: "trace s' = trace s @ evs" "distinct (pushes r evs)"
      "set (pushes r evs) \<subseteq> insert root (dom (map_of (dependencies gt)))" by blast
    have "count_list evs (Pushed (Some r) (Some n)) \<le> 1" for n
      unfolding count_list_pushes using evs(2) by (rule distinct_count_le_1)
    moreover have "n \<in> reachable ?g root" if "Pushed (Some r) (Some n) \<in> set evs" for n
    proof -
      from in_pushes[OF that] evs(3) have "n = root \<or> map_of (dependencies gt) n \<noteq> None"
        by auto
      then show ?thesis
      proof
        assume "n = root"
        then show ?thesis by (simp add: reachable_root)
      next
        assume "map_of (dependencies gt) n \<noteq> None"
        then have "in_degree ?g root n \<noteq> 0" unfolding h(2) a by (auto split: if_splits)
        then show ?thesis by (rule counted_reachable)
      qed
    qed
    ultimately show ?thesis using evs(1) by blast
  qed
  from a b c show ?thesis by blast
qed

theorem zero_count_without_enqueue:
  "map_of (dependencies gated_task) 4 = Some 1 \<and>
   next_edges_of (nodes rooted_env) 2 ! 1 = example_edge 4 0 \<and>
   route_output rooted_env 1 2 1 (Some (example_tensor 20 [2])) gated_engine =
     (Returned (),
      gated_engine\<lparr>graph_tasks := [(1, gated_task\<lparr>dependencies := [(1, 1), (2, 1), (3, 1)]\<rparr>)]\<rparr>) \<and>
   trace (gated_engine\<lparr>graph_tasks := [(1, gated_task\<lparr>dependencies := [(1, 1), (2, 1), (3, 1)]\<rparr>)]\<rparr>) =
     trace gated_engine \<and>
   map_option (\<lambda>(out, s). (trace s, map_option dependencies (map_of (graph_tasks s) 1)))
     (execute_with_graph_task 10 rooted_env 1 5 gated_engine) =
     Some ([Pushed (Some 1) (Some 5), Entered_thread_main None False, Applied 5,
            Pushed (Some 1) (Some 1), Applied 1, Pushed (Some 1) (Some 2),
            Applied 2, Pushed (Some 1) (Some 3)],
           Some [])"
  by code_simp

theorem dependencies_counted_and_enqueued_once_witness:
  "is_dag_from (nodes rooted_env) 5 \<and>
   dependencies (new_GraphTask False False 0 (Some 0) False) = [] \<and>
   in_degree (nodes rooted_env) 5 2 = 1 \<and> in_degree (nodes rooted_env) 5 5 = 0 \<and>
   (\<exists>out s' gt'. route_output rooted_env 1 2 0 (Some (example_tensor 20 [2])) gated_engine = (out, s') \<and>
      map_of (graph_tasks s') 1 = Some gt' \<and>
      map_of (dependencies gt') = (map_of (dependencies gated_task))(3 := None) \<and>
      trace s' = trace gated_engine @ [Pushed (Some 1) (Some 3)]) \<and>
   (\<exists>out s' evs. execute_with_graph_task 10 rooted_env 1 5 gated_engine = Some (out, s') \<and>
      trace s' = trace gated_engine @ evs \<and>
      count_list evs (Pushed (Some 1) (Some 3)) \<le> 1 \<and> Pushed (Some 1) (Some 3) \<in> set evs \<and>
      3 \<in> reachable (nodes rooted_env) 5)"
proof -
  let ?g = "nodes rooted_env"
  let ?t = "new_GraphTask False False 0 (Some 0) False"
  have "ranked ?g (\<lambda>n. if n = 5 then 5 else 5 - n)" by code_simp
  then have dag: "is_dag_from ?g 5" by (rule ranked_is_dag)
  have fresh: "dependencies ?t = []" by (simp add: new_GraphTask_def)
  note th = dependencies_counted_and_enqueued_once[OF dag fresh]
  have v: "map_of (dependencies (compute_dependencies ?g 5 ?t)) 2 = Some 1"
    "map_of (dependencies (compute_dependencies ?g 5 ?t)) 5 = None"
    by code_simp+
  from th[THEN conjunct1, rule_format, of 2] v(1)
  have a: "in_degree ?g 5 2 = 1" by (auto split: if_splits)
  from th[THEN conjunct1, rule_format, of 5] v(2)
  have b: "in_degree ?g 5 5 = 0" by (auto split: if_splits)
  obtain out s' where ro: "route_output rooted_env 1 2 0 (Some (example_tensor 20 [2])) gated_engine = (out, s')"
    by (cases "route_output rooted_env 1 2 0 (Some (example_tensor 20 [2])) gated_engine")
  have o: "fst (route_output rooted_env 1 2 0 (Some (example_tensor 20 [2])) gated_engine) = Returned ()"
    by code_simp
  have pre: "0 < length (next_edges_of ?g 2) \<and>
            edge_function (next_edges_of ?g 2 ! 0) = Some 3 \<and>
            map_of (graph_tasks gated_engine) 1 = Some gated_task \<and>
            map_of (dependencies gated_task) 3 = Some 1 \<and>
            route_output rooted_env 1 2 0 (Some (example_tensor 20 [2])) gated_engine = (out, s')"
  proof -
    have "0 < length (next_edges_of ?g 2)" "edge_function (next_edges_of ?g 2 ! 0) = Some 3"
      "map_of (dependencies gated_task) 3 = Some 1"
      by code_simp+
    moreover have "map_of (graph_tasks gated_engine) 1 = Some gated_task"
      by (simp add: gated_engine_def)
    ultimately show ?thesis using ro by simp
  qed
  have gate: "enqueue_gate gated_task 3" by code_simp
  from th[THEN conjunct2, THEN conjunct1, rule_format, OF pre] o ro gate
  have c: "\<exists>out s' gt'. route_output rooted_env 1 2 0 (Some (example_tensor 20 [2])) gated_engine = (out, s') \<and>
      map_of (graph_tasks s') 1 = Some gt' \<and>
      map_of (dependencies gt') = (map_of (dependencies gated_task))(3 := None) \<and>
      trace s' = trace gated_engine @ [Pushed (Some 1) (Some 3)]"
    by auto
  have run: "map_option (\<lambda>(out, s). trace s) (execute_with_graph_task 10 rooted_env 1 5 gated_engine) =
     Some ([Pushed (Some 1) (Some 5), Entered_thread_main None False, Applied 5,
            Pushed (Some 1) (Some 1), Applied 1, Pushed (Some 1) (Some 2),
            Applied 2, Pushed (Some 1) (Some 3)])"
    by code_simp
  then obtain o2 s2 where r2: "execute_with_graph_task 10 rooted_env 1 5 gated_engine = Some (o2, s2)"
    and t2: "trace s2 = [Pushed (Some 1) (Some 5), Entered_thread_main None False, Applied 5,
            Pushed (Some 1) (Some 1), Applied 1, Pushed (Some 1) (Some 2),
            Applied 2, Pushed (Some 1) (Some 3)]"
    by (cases "execute_with_graph_task 10 rooted_env 1 5 gated_engine") auto
  have deps: "dependencies gated_task = dependencies (compute_dependencies ?g 5 ?t)"
    by code_simp
  have pre2: "map_of (graph_tasks gated_engine) 1 = Some gated_task \<and>
      dependencies gated_task = dependencies (compute_dependencies ?g 5 ?t) \<and>
      execute_with_graph_task 10 rooted_env 1 5 gated_engine = Some (o2, s2)"
    using deps r2 by (simp add: gated_engine_def)
  have t0: "trace gated_engine = []" by (simp add: gated_engine_def Engine_def)
  from th[THEN conjunct2, THEN conjunct2, rule_format, OF pre2]
  obtain evs where evs: "trace s2 = trace gated_engine @ evs"
    "\<forall>n. count_list evs (Pushed (Some 1) (Some n)) \<le> 1"
    "\<forall>n. Pushed (Some 1) (Some n) \<in> set evs \<longrightarrow> n \<in> reachable ?g 5" by blast
  from evs(1) t0 t2 have "evs = [Pushed (Some 1) (Some 5), Entered_thread_main None False, Applied 5,
            Pushed (Some 1) (Some 1), Applied 1, Pushed (Some 1) (Some 2),
            Applied 2, Pushed (Some 1) (Some 3)]" by simp
  then have in3: "Pushed (Some 1) (Some 3) \<in> set evs" by simp
  with evs r2 have d: "\<exists>out s' evs. execute_with_graph_task 10 rooted_env 1 5 gated_engine = Some (out, s') \<and>
      trace s' = trace gated_engine @ evs \<and>
      count_list evs (Pushed (Some 1) (Some 3)) \<le> 1 \<and> Pushed (Some 1) (Some 3) \<in> set evs \<and>
      3 \<in> reachable ?g 5"
    by blast
  show ?thesis using dag fresh a b c d by blast
qed

end
